theory Spec2Isabelle
  imports Complex_Main "HOL-Library.Multiset"
begin

section \<open>Strings\<close>

text \<open>
  A JavaScript string is modelled as a list of code units below 256 (the Latin-1 range),
  which is what a HOL \<^typ>\<open>char\<close> holds. The built-in string operations the page
  uses are written out for that range.
\<close>

definition is_space :: "char \<Rightarrow> bool" where
  \<comment> \<open>The regular expression class \<open>\s\<close>, also the characters \<open>trim\<close> and \<open>parseInt\<close>
      skip: TAB, LF, VT, FF, CR, SP and NBSP are the ones below 256.\<close>
  "is_space c = ((of_char c :: nat) \<in> {9, 10, 11, 12, 13, 32, 160})"

definition is_word :: "char \<Rightarrow> bool" where
  \<comment> \<open>The regular expression class \<open>\w\<close>: \<open>[A-Za-z0-9_]\<close>.\<close>
  "is_word c = (let n = (of_char c :: nat) in
     (48 \<le> n \<and> n \<le> 57) \<or> (65 \<le> n \<and> n \<le> 90) \<or> n = 95 \<or> (97 \<le> n \<and> n \<le> 122))"

definition toLowerCase_char :: "char \<Rightarrow> char" where
  "toLowerCase_char c = (let n = (of_char c :: nat) in
     if (65 \<le> n \<and> n \<le> 90) \<or> (192 \<le> n \<and> n \<le> 222 \<and> n \<noteq> 215)
     then char_of (n + 32) else c)"

definition toLowerCase :: "string \<Rightarrow> string" where
  "toLowerCase s = map toLowerCase_char s"

definition trim :: "string \<Rightarrow> string" where
  "trim s = rev (dropWhile is_space (rev (dropWhile is_space s)))"

fun starts_with :: "string \<Rightarrow> string \<Rightarrow> bool" where
  "starts_with s [] = True"
| "starts_with [] (c # cs) = False"
| "starts_with (d # ds) (c # cs) = (d = c \<and> starts_with ds cs)"

fun includes_str :: "string \<Rightarrow> string \<Rightarrow> bool" where
  \<comment> \<open>\<open>hay.includes(needle)\<close>\<close>
  "includes_str [] needle = starts_with [] needle"
| "includes_str (h # hs) needle = (starts_with (h # hs) needle \<or> includes_str hs needle)"

fun join :: "string \<Rightarrow> string option list \<Rightarrow> string" where
  \<comment> \<open>\<open>Array.prototype.join\<close>: an \<open>undefined\<close> element contributes the empty string.\<close>
  "join sep [] = []"
| "join sep [x] = (case x of None \<Rightarrow> [] | Some s \<Rightarrow> s)"
| "join sep (x # y # ys) = (case x of None \<Rightarrow> [] | Some s \<Rightarrow> s) @ sep @ join sep (y # ys)"

section \<open>Category resolver (server page)\<close>

fun replace_spaces :: "bool \<Rightarrow> string \<Rightarrow> string" where
  \<comment> \<open>\<open>.replace(/\s+/g, '-')\<close>: every maximal run of white space becomes one hyphen.
      The flag says that the previous character belonged to a run already replaced.\<close>
  "replace_spaces in_run [] = []"
| "replace_spaces in_run (c # cs) =
     (if is_space c then (if in_run then replace_spaces True cs
                          else CHR ''-'' # replace_spaces True cs)
      else c # replace_spaces False cs)"

definition strip_non_word :: "string \<Rightarrow> string" where
  \<comment> \<open>\<open>.replace(/[^\w\-]+/g, '')\<close>\<close>
  "strip_non_word s = filter (\<lambda>c. is_word c \<or> c = CHR ''-'') s"

fun collapse_hyphens :: "string \<Rightarrow> string" where
  \<comment> \<open>\<open>.replace(/\-\-+/g, '-')\<close>: a run of two or more hyphens becomes one.\<close>
  "collapse_hyphens [] = []"
| "collapse_hyphens [c] = [c]"
| "collapse_hyphens (c # d # cs) =
     (if c = CHR ''-'' \<and> d = CHR ''-'' then collapse_hyphens (d # cs)
      else c # collapse_hyphens (d # cs))"

definition strip_leading_hyphens :: "string \<Rightarrow> string" where
  \<comment> \<open>\<open>.replace(/^-+/, '')\<close>\<close>
  "strip_leading_hyphens s = dropWhile (\<lambda>c. c = CHR ''-'') s"

definition strip_trailing_hyphens :: "string \<Rightarrow> string" where
  \<comment> \<open>\<open>.replace(/-+$/, '')\<close>\<close>
  "strip_trailing_hyphens s = rev (dropWhile (\<lambda>c. c = CHR ''-'') (rev s))"

definition createSlug :: "string \<Rightarrow> string" where
  "createSlug name =
     strip_trailing_hyphens (strip_leading_hyphens (collapse_hyphens
       (strip_non_word (replace_spaces False (toLowerCase name)))))"

text \<open>The shape of a slug: what \<open>createSlug\<close> leaves unchanged.\<close>

fun no_double_hyphen :: "string \<Rightarrow> bool" where
  "no_double_hyphen [] = True"
| "no_double_hyphen [c] = True"
| "no_double_hyphen (c # d # cs) =
     (\<not> (c = CHR ''-'' \<and> d = CHR ''-'') \<and> no_double_hyphen (d # cs))"

definition slug_char :: "char \<Rightarrow> bool" where
  "slug_char c = ((is_word c \<or> c = CHR ''-'') \<and> toLowerCase_char c = c)"

definition is_slug :: "string \<Rightarrow> bool" where
  "is_slug r = ((\<forall>c \<in> set r. slug_char c) \<and> no_double_hyphen r
     \<and> (r = [] \<or> (hd r \<noteq> CHR ''-'' \<and> last r \<noteq> CHR ''-'')))"

datatype category =
  Category (cat_id: string) (cat_name: string) (children: "category list option")

definition mainCategory :: "string \<Rightarrow> category list option \<Rightarrow> category option" where
  \<comment> \<open>\<open>business?.categories\<close> may be absent; \<open>find\<close> gives the first element that passes.\<close>
  "mainCategory slug categories =
     (case categories of
        None \<Rightarrow> None
      | Some cats \<Rightarrow> find (\<lambda>cat. createSlug (cat_name cat) = toLowerCase slug) cats)"

section \<open>Pagination defaults from the query string (server page)\<close>

datatype qparam = Undefined | Str string | StrArr "string list"

fun ToString :: "qparam \<Rightarrow> string" where
  \<comment> \<open>\<open>parseInt\<close> converts its argument to a string first; an array is joined with commas.\<close>
  "ToString Undefined = ''undefined''"
| "ToString (Str s) = s"
| "ToString (StrArr ss) = join '','' (map Some ss)"

definition digit_val :: "nat \<Rightarrow> char \<Rightarrow> nat option" where
  "digit_val radix c = (let n = (of_char c :: nat);
       v = (if 48 \<le> n \<and> n \<le> 57 then n - 48
            else if 97 \<le> n \<and> n \<le> 122 then n - 87
            else if 65 \<le> n \<and> n \<le> 90 then n - 55
            else radix)
     in if v < radix then Some v else None)"

definition digits_value :: "nat \<Rightarrow> string \<Rightarrow> nat" where
  "digits_value radix z = foldl (\<lambda>acc c. acc * radix + the (digit_val radix c)) 0 z"

definition parseInt :: "string \<Rightarrow> int option" where
  \<comment> \<open>\<open>parseInt(s)\<close> without a radix; \<open>None\<close> is \<open>NaN\<close>. The value is the exact
      integer the digits denote (the code's number is that integer rounded to a double).\<close>
  "parseInt s =
     (let s0 = dropWhile is_space s;
          negative = starts_with s0 ''-'';
          s1 = (if starts_with s0 ''-'' \<or> starts_with s0 ''+'' then tl s0 else s0);
          hex = (starts_with s1 ''0x'' \<or> starts_with s1 ''0X'');
          radix = (if hex then 16 else 10);
          s2 = (if hex then drop 2 s1 else s1);
          z = takeWhile (\<lambda>c. digit_val radix c \<noteq> None) s2
      in if z = [] then None
         else Some ((if negative then - 1 else 1) * int (digits_value radix z)))"

definition or_default :: "int option \<Rightarrow> int \<Rightarrow> int" where
  \<comment> \<open>\<open>n || d\<close> on a number: \<open>NaN\<close> and \<open>0\<close> are falsy.\<close>
  "or_default n d = (case n of None \<Rightarrow> d | Some v \<Rightarrow> if v = 0 then d else v)"

definition page :: "qparam \<Rightarrow> int" where
  "page q = or_default (parseInt (ToString q)) 1"

definition limit :: "qparam \<Rightarrow> int" where
  "limit q = or_default (parseInt (ToString q)) 20"

section \<open>Descendant ids of a category (client component)\<close>

fun getAllDescendantIds :: "category \<Rightarrow> string list" where
  "getAllDescendantIds (Category i n cs) =
     (case cs of
        None \<Rightarrow> [i]
      | Some chs \<Rightarrow>
          if length chs > 0
          then foldl (\<lambda>ids child. ids @ getAllDescendantIds child) [i] chs
          else [i])"

fun preorder :: "category \<Rightarrow> string list" where
  \<comment> \<open>The specification's wording: the node's own id, then the ids reachable through
      its children, depth first, in the children's order.\<close>
  "preorder (Category i n cs) =
     i # concat (map preorder (case cs of None \<Rightarrow> [] | Some chs \<Rightarrow> chs))"

section \<open>View parameters and their setters (client component)\<close>

datatype sort_key = SortName | PriceLow | PriceHigh | Newest

record view_state =
  sortBy :: sort_key
  selectedCats :: "string list"
  selectedSizes :: "string list"
  searchQuery :: string
  currentPage :: int
  priceRange :: "int \<times> int"

datatype 'a SetStateAction = Value 'a | Updater "'a \<Rightarrow> 'a"

definition setCurrentPage :: "int \<Rightarrow> view_state \<Rightarrow> view_state" where
  "setCurrentPage n st = st\<lparr>currentPage := n\<rparr>"

definition handleSortChange :: "sort_key SetStateAction \<Rightarrow> view_state \<Rightarrow> view_state" where
  "handleSortChange newSortBy st =
     (case newSortBy of
        Updater f \<Rightarrow> setCurrentPage 1 (st\<lparr>sortBy := f (sortBy st)\<rparr>)
      | Value v \<Rightarrow> setCurrentPage 1 (st\<lparr>sortBy := v\<rparr>))"

definition handleSearchChange :: "string SetStateAction \<Rightarrow> view_state \<Rightarrow> view_state" where
  "handleSearchChange newSearchQuery st =
     (case newSearchQuery of
        Updater f \<Rightarrow> setCurrentPage 1 (st\<lparr>searchQuery := f (searchQuery st)\<rparr>)
      | Value v \<Rightarrow> setCurrentPage 1 (st\<lparr>searchQuery := v\<rparr>))"

definition handleCategoryChange :: "string list SetStateAction \<Rightarrow> view_state \<Rightarrow> view_state" where
  "handleCategoryChange newSelectedCats st =
     (case newSelectedCats of
        Updater f \<Rightarrow> setCurrentPage 1 (st\<lparr>selectedCats := f (selectedCats st)\<rparr>)
      | Value v \<Rightarrow> setCurrentPage 1 (st\<lparr>selectedCats := v\<rparr>))"

definition handleSizeChange :: "string list SetStateAction \<Rightarrow> view_state \<Rightarrow> view_state" where
  "handleSizeChange newSelectedSizes st =
     (case newSelectedSizes of
        Updater f \<Rightarrow> setCurrentPage 1 (st\<lparr>selectedSizes := f (selectedSizes st)\<rparr>)
      | Value v \<Rightarrow> setCurrentPage 1 (st\<lparr>selectedSizes := v\<rparr>))"

definition handlePriceRangeChange :: "(int \<times> int) SetStateAction \<Rightarrow> view_state \<Rightarrow> view_state" where
  "handlePriceRangeChange newPriceRange st =
     (case newPriceRange of
        Updater f \<Rightarrow> setCurrentPage 1 (st\<lparr>priceRange := f (priceRange st)\<rparr>)
      | Value v \<Rightarrow> setCurrentPage 1 (st\<lparr>priceRange := v\<rparr>))"

section \<open>Products and the effective price\<close>

text \<open>
  A number is an integer or \<open>NaN\<close>, written \<open>Some n\<close> and \<open>None\<close>. A date is modelled as
  the instant, in milliseconds, it parses to; a field the code reads defensively (\<open>?.\<close>,
  \<open>||\<close>, \<open>? :\<close>) is optional. The clock \<open>Date.now()\<close> is read anew in every callback: the
  filter pass is taken at the instant \<open>now\<close>, and the sort may see \<open>now\<close> and the instants
  \<open>later\<close>.
\<close>

definition js_lt :: "int option \<Rightarrow> int option \<Rightarrow> bool" where
  \<comment> \<open>\<open>a < b\<close> on numbers: false when either side is \<open>NaN\<close>.\<close>
  "js_lt a b =
     (case a of None \<Rightarrow> False | Some x \<Rightarrow> (case b of None \<Rightarrow> False | Some y \<Rightarrow> x < y))"

definition js_minus :: "int option \<Rightarrow> int option \<Rightarrow> int option" where
  \<comment> \<open>\<open>a - b\<close> on numbers: \<open>NaN\<close> when either side is \<open>NaN\<close>.\<close>
  "js_minus a b =
     (case a of None \<Rightarrow> None | Some x \<Rightarrow> (case b of None \<Rightarrow> None | Some y \<Rightarrow> Some (x - y)))"

datatype jsnum = Num int | NumStr int | NotNumeric
  \<comment> \<open>A price field as the data source delivers it: a number, a non-empty string that
      reads as that integer, or a non-empty string that reads as no number. An absent
      field and the empty string are \<open>None\<close>.\<close>

definition jsnum_value :: "jsnum \<Rightarrow> int option" where
  \<comment> \<open>\<open>Number(x)\<close>\<close>
  "jsnum_value x = (case x of Num n \<Rightarrow> Some n | NumStr n \<Rightarrow> Some n | NotNumeric \<Rightarrow> None)"

definition Number_or :: "jsnum option \<Rightarrow> int option \<Rightarrow> int option" where
  \<comment> \<open>\<open>Number(x || d)\<close>: the number \<open>0\<close> is falsy, a non-empty string is not.\<close>
  "Number_or x d =
     (case x of
        None \<Rightarrow> d
      | Some y \<Rightarrow> if y = Num 0 then d else jsnum_value y)"

record variant =
  selling_price :: "jsnum option"
  offer_price :: "jsnum option"
  discount_start_date :: "int option"
  discount_end_date :: "int option"
  variants_stock :: int
  variants_values :: "string list option"
  condition :: "string option"

record cat_tag =
  tag_id :: string
  tag_name :: "string option"

record product =
  p_id :: "string option"
  name :: "string option"
  category_group :: "cat_tag list option"
  variantsId :: "variant list option"

definition getTime_or_0 :: "int option \<Rightarrow> int" where
  \<comment> \<open>\<open>d ? new Date(d).getTime() : 0\<close>\<close>
  "getTime_or_0 d = (case d of None \<Rightarrow> 0 | Some t \<Rightarrow> t)"

definition price_in_filter :: "int \<Rightarrow> product \<Rightarrow> int option" where
  \<comment> \<open>The \<open>price\<close> expression inside the filter callback.\<close>
  "price_in_filter now product =
     (case (case variantsId product of
              None \<Rightarrow> None
            | Some vs \<Rightarrow>
                (case find (\<lambda>x. variants_stock x > 0) vs of
                   Some v \<Rightarrow> Some v
                 | None \<Rightarrow> (case vs of [] \<Rightarrow> None | v # _ \<Rightarrow> Some v))) of
        None \<Rightarrow> Some 0
      | Some v \<Rightarrow>
          (let sell = Number_or (selling_price v) (Some 0);
               offer = Number_or (offer_price v) sell;
               start = getTime_or_0 (discount_start_date v);
               end = getTime_or_0 (discount_end_date v);
               isOffer = (js_lt offer sell \<and> now \<ge> start \<and> now \<le> end)
           in if isOffer then offer else sell))"

definition getPrice :: "int \<Rightarrow> product \<Rightarrow> int option" where
  \<comment> \<open>The \<open>getPrice\<close> helper inside the sort comparator.\<close>
  "getPrice now p =
     (case (case variantsId p of
              None \<Rightarrow> None
            | Some vs \<Rightarrow>
                (case find (\<lambda>x. variants_stock x > 0) vs of
                   Some v \<Rightarrow> Some v
                 | None \<Rightarrow> (case vs of [] \<Rightarrow> None | v # _ \<Rightarrow> Some v))) of
        None \<Rightarrow> Some 0
      | Some v \<Rightarrow>
          (let sell = Number_or (selling_price v) (Some 0);
               offer = Number_or (offer_price v) sell;
               start = getTime_or_0 (discount_start_date v);
               end = getTime_or_0 (discount_end_date v);
               isOffer = (js_lt offer sell \<and> now \<ge> start \<and> now \<le> end)
           in if isOffer then offer else sell))"

definition price_in_bounds :: "int \<Rightarrow> product \<Rightarrow> int option" where
  \<comment> \<open>The callback mapped over the products when \<open>minPrice\<close> and \<open>maxPrice\<close> are computed.\<close>
  "price_in_bounds now p =
     (case (case variantsId p of
              None \<Rightarrow> None
            | Some vs \<Rightarrow>
                (case find (\<lambda>x. variants_stock x > 0) vs of
                   Some v \<Rightarrow> Some v
                 | None \<Rightarrow> (case vs of [] \<Rightarrow> None | v # _ \<Rightarrow> Some v))) of
        None \<Rightarrow> Some 0
      | Some v \<Rightarrow>
          (let sell = Number_or (selling_price v) (Some 0);
               offer = Number_or (offer_price v) sell;
               start = getTime_or_0 (discount_start_date v);
               end = getTime_or_0 (discount_end_date v);
               isOffer = (js_lt offer sell \<and> now \<ge> start \<and> now \<le> end)
           in if isOffer then offer else sell))"

definition minPrice_maxPrice :: "int option \<Rightarrow> int option \<Rightarrow> int \<Rightarrow> product list \<Rightarrow> int \<times> int" where
  \<comment> \<open>The \<open>useMemo\<close> that computes \<open>minPrice\<close> and \<open>maxPrice\<close>.\<close>
  "minPrice_maxPrice initialMinPrice initialMaxPrice now initialProducts =
     (if initialMinPrice \<noteq> None \<and> initialMaxPrice \<noteq> None
      then (the initialMinPrice, the initialMaxPrice)
      else if length initialProducts = 0 then (0, 10000)
      else (let prices = map the (filter (\<lambda>n. n \<noteq> None)
                                   (map (price_in_bounds now) initialProducts))
            in (if length prices > 0 then Min (set prices) else 0,
                if length prices > 0 then Max (set prices) else 10000)))"

section \<open>The product view pipeline\<close>

definition searchIn :: "product \<Rightarrow> string" where
  "searchIn product =
     join '' ''
       ([Some (case name product of None \<Rightarrow> [] | Some n \<Rightarrow> toLowerCase n)]
        @ (case category_group product of
             None \<Rightarrow> []
           | Some cg \<Rightarrow> map (\<lambda>cat. map_option toLowerCase (tag_name cat)) cg)
        @ (case variantsId product of
             None \<Rightarrow> []
           | Some vs \<Rightarrow> map (\<lambda>v. map_option toLowerCase (condition v)) vs))"

definition prodCatIds :: "product \<Rightarrow> string list" where
  "prodCatIds product =
     map tag_id (case category_group product of None \<Rightarrow> [] | Some cg \<Rightarrow> cg)"

definition prodSizes :: "product \<Rightarrow> string list" where
  "prodSizes product =
     (case variantsId product of
        None \<Rightarrow> []
      | Some vs \<Rightarrow>
          concat (map (\<lambda>v. case variants_values v of None \<Rightarrow> [] | Some vals \<Rightarrow> vals) vs))"

definition passes_filter :: "int \<Rightarrow> view_state \<Rightarrow> product \<Rightarrow> bool" where
  \<comment> \<open>The callback given to \<open>initialProducts.filter\<close>. A \<open>NaN\<close> price is neither below
      the range nor above it.\<close>
  "passes_filter now st product =
     (let price = price_in_filter now product in
      if js_lt price (Some (fst (priceRange st))) \<or> js_lt (Some (snd (priceRange st))) price
      then False
      else if trim (searchQuery st) \<noteq> []
              \<and> \<not> includes_str (searchIn product) (toLowerCase (searchQuery st)) then False
      else if length (selectedCats st) > 0
              \<and> \<not> list_ex (\<lambda>i. i \<in> set (selectedCats st)) (prodCatIds product) then False
      else if length (selectedSizes st) > 0
              \<and> \<not> list_ex (\<lambda>sz. sz \<in> set (selectedSizes st)) (prodSizes product) then False
      else True)"

definition name_or_empty :: "product \<Rightarrow> string" where
  \<comment> \<open>\<open>a.name || ""\<close>\<close>
  "name_or_empty a = (case name a of None \<Rightarrow> [] | Some n \<Rightarrow> n)"

definition id_or_empty :: "product \<Rightarrow> string" where
  \<comment> \<open>\<open>a._id || ""\<close>\<close>
  "id_or_empty a = (case p_id a of None \<Rightarrow> [] | Some i \<Rightarrow> i)"

definition compare_products ::
  "(string \<Rightarrow> string \<Rightarrow> int) \<Rightarrow> sort_key \<Rightarrow> int \<Rightarrow> int \<Rightarrow> product \<Rightarrow> product
     \<Rightarrow> int option" where
  \<comment> \<open>The callback given to \<open>.sort\<close>. \<open>t1\<close> and \<open>t2\<close> are the instants \<open>Date.now()\<close> returns
      in the first and in the second \<open>getPrice\<close> call of one comparison; the difference of
      two prices is \<open>NaN\<close> when one of them is. \<open>localeCompare\<close> depends on the runtime's
      locale and is a parameter.\<close>
  "compare_products localeCompare key t1 t2 a b =
     (case key of
        SortName \<Rightarrow> Some (localeCompare (name_or_empty a) (name_or_empty b))
      | PriceLow \<Rightarrow> js_minus (getPrice t1 a) (getPrice t2 b)
      | PriceHigh \<Rightarrow> js_minus (getPrice t1 b) (getPrice t2 a)
      | Newest \<Rightarrow> Some (localeCompare (id_or_empty b) (id_or_empty a)))"

subsection \<open>Sorting an array\<close>

text \<open>
  The language standard fixes the result of \<open>Array.prototype.sort\<close> only when the
  comparator is a consistent comparison function for the elements: every call on a pair
  returns the same number, never \<open>NaN\<close>, and the three relations it induces are reflexive,
  symmetric and transitive as the standard lists them. The result is then the stable
  sorted order. Otherwise the order is left to the implementation, which is a parameter
  here (\<open>engine\<close>).
\<close>

definition SortCompare :: "('a \<Rightarrow> 'a \<Rightarrow> int option) \<Rightarrow> 'a \<Rightarrow> 'a \<Rightarrow> int" where
  \<comment> \<open>The standard's \<open>SortCompare\<close>: a comparator result of \<open>NaN\<close> counts as \<open>+0\<close>.\<close>
  "SortCompare comparefn x y = (case comparefn x y of None \<Rightarrow> 0 | Some v \<Rightarrow> v)"

definition consistent_comparefn ::
  "(int \<Rightarrow> int \<Rightarrow> 'a \<Rightarrow> 'a \<Rightarrow> int option) \<Rightarrow> int \<Rightarrow> int list \<Rightarrow> 'a list \<Rightarrow> bool" where
  "consistent_comparefn comparefn now later xs =
     ((\<forall>a \<in> set xs. \<forall>b \<in> set xs.
          comparefn now now a b \<noteq> None
          \<and> (\<forall>t1 \<in> set (now # later). \<forall>t2 \<in> set (now # later).
                comparefn t1 t2 a b = comparefn now now a b))
      \<and> (\<forall>a \<in> set xs. comparefn now now a a = Some 0)
      \<and> (\<forall>a \<in> set xs. \<forall>b \<in> set xs.
            comparefn now now a b = Some 0 \<longrightarrow> comparefn now now b a = Some 0)
      \<and> (\<forall>a \<in> set xs. \<forall>b \<in> set xs. \<forall>c \<in> set xs.
            (comparefn now now a b = Some 0 \<and> comparefn now now b c = Some 0
               \<longrightarrow> comparefn now now a c = Some 0)
            \<and> (js_lt (comparefn now now a b) (Some 0) \<and> js_lt (comparefn now now b c) (Some 0)
               \<longrightarrow> js_lt (comparefn now now a c) (Some 0))
            \<and> (js_lt (Some 0) (comparefn now now a b) \<and> js_lt (Some 0) (comparefn now now b c)
               \<longrightarrow> js_lt (Some 0) (comparefn now now a c))))"

fun insert_sorted :: "('a \<Rightarrow> 'a \<Rightarrow> int) \<Rightarrow> 'a \<Rightarrow> 'a list \<Rightarrow> 'a list" where
  "insert_sorted cmp x [] = [x]"
| "insert_sorted cmp x (y # ys) =
     (if cmp x y \<le> 0 then x # y # ys else y # insert_sorted cmp x ys)"

definition stable_sort :: "('a \<Rightarrow> 'a \<Rightarrow> int) \<Rightarrow> 'a list \<Rightarrow> 'a list" where
  \<comment> \<open>The stable sorted order, computed by an insertion sort that puts every element
      before the later elements it does not compare greater than.\<close>
  "stable_sort cmp xs = foldr (insert_sorted cmp) xs []"

definition js_sort ::
  "((int \<Rightarrow> int \<Rightarrow> 'a \<Rightarrow> 'a \<Rightarrow> int option) \<Rightarrow> int \<Rightarrow> int list \<Rightarrow> 'a list \<Rightarrow> 'a list)
     \<Rightarrow> (int \<Rightarrow> int \<Rightarrow> 'a \<Rightarrow> 'a \<Rightarrow> int option) \<Rightarrow> int \<Rightarrow> int list \<Rightarrow> 'a list \<Rightarrow> 'a list" where
  \<comment> \<open>\<open>Array.prototype.sort\<close> with a comparator.\<close>
  "js_sort engine comparefn now later xs =
     (if consistent_comparefn comparefn now later xs
      then stable_sort (SortCompare (comparefn now now)) xs
      else engine comparefn now later xs)"

definition reorders ::
  "((int \<Rightarrow> int \<Rightarrow> 'a \<Rightarrow> 'a \<Rightarrow> int option) \<Rightarrow> int \<Rightarrow> int list \<Rightarrow> 'a list \<Rightarrow> 'a list)
     \<Rightarrow> bool" where
  \<comment> \<open>What the standard asks of every engine: the result is an ordering of the elements
      of the array.\<close>
  "reorders engine = (\<forall>comparefn now later xs. mset (engine comparefn now later xs) = mset xs)"

subsection \<open>One engine\<close>

text \<open>
  The procedure of the V8 engine for an array shorter than 64 elements: find the run the
  array starts with, reverse it when it is descending, then insert each remaining element
  by binary search. Every comparison is made at the instant \<open>now\<close>.
\<close>

fun extend_run :: "bool \<Rightarrow> ('a \<Rightarrow> 'a \<Rightarrow> int) \<Rightarrow> 'a \<Rightarrow> 'a list \<Rightarrow> 'a list \<times> 'a list" where
  "extend_run descending cmp previous [] = ([], [])"
| "extend_run descending cmp previous (x # xs) =
     (if (if descending then cmp x previous \<ge> 0 else cmp x previous < 0)
      then ([], x # xs)
      else (case extend_run descending cmp x xs of (run, rest) \<Rightarrow> (x # run, rest)))"

definition count_and_make_run :: "('a \<Rightarrow> 'a \<Rightarrow> int) \<Rightarrow> 'a \<Rightarrow> 'a \<Rightarrow> 'a list \<Rightarrow> 'a list \<times> 'a list" where
  "count_and_make_run cmp a b xs =
     (let descending = (cmp b a < 0) in
      case extend_run descending cmp b xs of
        (run, rest) \<Rightarrow> (if descending then rev (a # b # run) else a # b # run, rest))"

function binary_search :: "('a \<Rightarrow> 'a \<Rightarrow> int) \<Rightarrow> 'a \<Rightarrow> 'a list \<Rightarrow> nat \<Rightarrow> nat \<Rightarrow> nat" where
  "binary_search cmp pivot xs left right =
     (if left < right
      then (if cmp pivot (xs ! (left + (right - left) div 2)) < 0
            then binary_search cmp pivot xs left (left + (right - left) div 2)
            else binary_search cmp pivot xs (left + (right - left) div 2 + 1) right)
      else left)"
  by pat_completeness auto
termination
  by (relation "measure (\<lambda>(cmp, pivot, xs, left, right). right - left)") auto

definition binary_insert :: "('a \<Rightarrow> 'a \<Rightarrow> int) \<Rightarrow> 'a list \<Rightarrow> 'a \<Rightarrow> 'a list" where
  "binary_insert cmp xs pivot =
     (let pos = binary_search cmp pivot xs 0 (length xs)
      in take pos xs @ pivot # drop pos xs)"

definition binary_insertion_engine ::
  "(int \<Rightarrow> int \<Rightarrow> 'a \<Rightarrow> 'a \<Rightarrow> int option) \<Rightarrow> int \<Rightarrow> int list \<Rightarrow> 'a list \<Rightarrow> 'a list" where
  "binary_insertion_engine comparefn now later xs =
     (case xs of
        [] \<Rightarrow> []
      | [a] \<Rightarrow> [a]
      | a # b # rest \<Rightarrow>
          (case count_and_make_run (SortCompare (comparefn now now)) a b rest of
             (run, remaining) \<Rightarrow>
               foldl (binary_insert (SortCompare (comparefn now now))) run remaining))"

subsection \<open>Pages and the whole computation\<close>

definition js_slice :: "int \<Rightarrow> int \<Rightarrow> 'a list \<Rightarrow> 'a list" where
  \<comment> \<open>\<open>Array.prototype.slice(start, end)\<close>: a negative index counts from the end, both are
      clamped to the array.\<close>
  "js_slice start end xs =
     (let len = int (length xs);
          k = (if start < 0 then max (len + start) 0 else min start len);
          final = (if end < 0 then max (len + end) 0 else min end len)
      in take (nat (final - k)) (drop (nat k) xs))"

definition itemsPerPage :: int where
  "itemsPerPage = 20"

record pipeline_result =
  filteredAndSorted :: "product list"
  paginatedProducts :: "product list"
  totalPages :: int

definition pipeline ::
  "((int \<Rightarrow> int \<Rightarrow> product \<Rightarrow> product \<Rightarrow> int option) \<Rightarrow> int \<Rightarrow> int list \<Rightarrow> product list
      \<Rightarrow> product list)
     \<Rightarrow> (string \<Rightarrow> string \<Rightarrow> int) \<Rightarrow> int \<Rightarrow> int list \<Rightarrow> view_state \<Rightarrow> product list
     \<Rightarrow> pipeline_result" where
  "pipeline engine localeCompare now later st initialProducts =
     (let filtered = js_sort engine (compare_products localeCompare (sortBy st)) now later
                       (filter (passes_filter now st) initialProducts);
          totalPages = \<lceil>real (length filtered) / real_of_int itemsPerPage\<rceil>;
          startIndex = (currentPage st - 1) * itemsPerPage;
          endIndex = startIndex + itemsPerPage;
          paginatedProducts = js_slice startIndex endIndex filtered
      in \<lparr>filteredAndSorted = filtered,
          paginatedProducts = paginatedProducts,
          totalPages = totalPages\<rparr>)"

subsection \<open>The same computation on a store of arrays\<close>

text \<open>
  To say which arrays a run of the pipeline writes, arrays live in a store and are named
  by their address (their index in the store). \<open>filter\<close> and \<open>slice\<close> allocate a new
  array; \<open>sort\<close> overwrites the array it is called on and returns that same array.
\<close>

type_synonym store = "product list list"

definition array_filter :: "(product \<Rightarrow> bool) \<Rightarrow> nat \<Rightarrow> store \<Rightarrow> nat \<times> store" where
  "array_filter P a h = (length h, h @ [filter P (h ! a)])"

definition array_sort ::
  "((int \<Rightarrow> int \<Rightarrow> product \<Rightarrow> product \<Rightarrow> int option) \<Rightarrow> int \<Rightarrow> int list \<Rightarrow> product list
      \<Rightarrow> product list)
     \<Rightarrow> (int \<Rightarrow> int \<Rightarrow> product \<Rightarrow> product \<Rightarrow> int option) \<Rightarrow> int \<Rightarrow> int list
     \<Rightarrow> nat \<Rightarrow> store \<Rightarrow> nat \<times> store" where
  "array_sort engine comparefn now later a h =
     (a, h[a := js_sort engine comparefn now later (h ! a)])"

definition array_slice :: "int \<Rightarrow> int \<Rightarrow> nat \<Rightarrow> store \<Rightarrow> nat \<times> store" where
  "array_slice start end a h = (length h, h @ [js_slice start end (h ! a)])"

definition pipeline_on_store ::
  "((int \<Rightarrow> int \<Rightarrow> product \<Rightarrow> product \<Rightarrow> int option) \<Rightarrow> int \<Rightarrow> int list \<Rightarrow> product list
      \<Rightarrow> product list)
     \<Rightarrow> (string \<Rightarrow> string \<Rightarrow> int) \<Rightarrow> int \<Rightarrow> int list \<Rightarrow> view_state \<Rightarrow> nat \<Rightarrow> store
     \<Rightarrow> (nat \<times> nat \<times> int) \<times> store" where
  \<comment> \<open>Returns the addresses of \<open>filteredAndSorted\<close> and \<open>paginatedProducts\<close>, the page
      count, and the store afterwards.\<close>
  "pipeline_on_store engine localeCompare now later st initialProducts h =
     (let (filtered0, h1) = array_filter (passes_filter now st) initialProducts h;
          (filtered, h2) = array_sort engine (compare_products localeCompare (sortBy st))
                             now later filtered0 h1;
          totalPages = \<lceil>real (length (h2 ! filtered)) / real_of_int itemsPerPage\<rceil>;
          startIndex = (currentPage st - 1) * itemsPerPage;
          endIndex = startIndex + itemsPerPage;
          (paginated, h3) = array_slice startIndex endIndex filtered h2
      in ((filtered, paginated, totalPages), h3))"

section \<open>Sample data\<close>

text \<open>Concrete values on which the statements below are instantiated.\<close>

definition sample_variant :: variant where
  "sample_variant =
     \<lparr>selling_price = Some (Num 100), offer_price = Some (Num 80),
      discount_start_date = Some 1000, discount_end_date = Some 2000,
      variants_stock = 5, variants_values = Some [''M'', ''L''], condition = Some ''New''\<rparr>"

definition sample_product :: "string \<Rightarrow> product" where
  "sample_product i =
     \<lparr>p_id = Some i, name = Some ''Red Shirt'',
      category_group = Some [\<lparr>tag_id = ''c1'', tag_name = Some ''Tops''\<rparr>],
      variantsId = Some [sample_variant]\<rparr>"

definition sample_state :: view_state where
  "sample_state =
     \<lparr>sortBy = PriceLow, selectedCats = [''c1''], selectedSizes = [''M''],
      searchQuery = '' Shirt '', currentPage = 1, priceRange = (0, 1000)\<rparr>"

definition priced_product :: "string \<Rightarrow> jsnum \<Rightarrow> product" where
  \<comment> \<open>A product with one variant in stock, a selling price and no offer.\<close>
  "priced_product i price =
     \<lparr>p_id = Some i, name = Some i, category_group = None,
      variantsId = Some
        [\<lparr>selling_price = Some price, offer_price = None,
          discount_start_date = None, discount_end_date = None,
          variants_stock = 1, variants_values = None, condition = None\<rparr>]\<rparr>"

definition unfiltered_state :: "sort_key \<Rightarrow> view_state" where
  \<comment> \<open>No search text, no selection, price range 0 to 1000, first page.\<close>
  "unfiltered_state key =
     \<lparr>sortBy = key, selectedCats = [], selectedSizes = [], searchQuery = [],
      currentPage = 1, priceRange = (0, 1000)\<rparr>"

fun sample_compare :: "string \<Rightarrow> string \<Rightarrow> int" where
  \<comment> \<open>A stand-in for \<open>localeCompare\<close>: code unit order.\<close>
  "sample_compare [] [] = 0"
| "sample_compare [] (y # ys) = - 1"
| "sample_compare (x # xs) [] = 1"
| "sample_compare (x # xs) (y # ys) =
     (if (of_char x :: nat) < of_char y then - 1
      else if (of_char y :: nat) < of_char x then 1
      else sample_compare xs ys)"

section \<open>Setters reset the page\<close>

lemma setCurrentPage_page: "currentPage (setCurrentPage n st) = n"
  by (simp add: setCurrentPage_def)

text \<open>
  Claim C5. Whatever the view parameters were, calling the sort setter or one of the four
  filter setters (search, categories, sizes, price range), with a new value or with a
  function of the previous value, leaves the current page at 1.
\<close>

theorem setters_reset_page:
  "currentPage (handleSortChange a1 st) = 1
   \<and> currentPage (handleSearchChange a2 st) = 1
   \<and> currentPage (handleCategoryChange a3 st) = 1
   \<and> currentPage (handleSizeChange a4 st) = 1
   \<and> currentPage (handlePriceRangeChange a5 st) = 1"
  by (simp add: handleSortChange_def handleSearchChange_def handleCategoryChange_def
      handleSizeChange_def handlePriceRangeChange_def setCurrentPage_page
      split: SetStateAction.split)

text \<open>On page 3, choosing a size (by value or by a functional update) gives page 1.\<close>

theorem setters_reset_page_witness:
  "currentPage (handleSizeChange (Value [''M''])
     \<lparr>sortBy = Newest, selectedCats = [], selectedSizes = [], searchQuery = [],
      currentPage = 3, priceRange = (0, 10000)\<rparr>) = 1
   \<and> currentPage (handleSizeChange (Updater (\<lambda>prev. ''M'' # prev))
     \<lparr>sortBy = Newest, selectedCats = [], selectedSizes = [], searchQuery = [],
      currentPage = 3, priceRange = (0, 10000)\<rparr>) = 1"
  using setters_reset_page by blast

section \<open>Products without variants\<close>

text \<open>
  Claim C7. For a product whose variant list is absent or empty, the effective price is 0
  at each of the three places that compute it: the filter callback, the sort comparator's
  helper, and the computation of the price bounds.
\<close>

theorem missing_variants_price_zero:
  assumes "variantsId p = None \<or> variantsId p = Some []"
  shows "price_in_filter now p = Some 0 \<and> getPrice now p = Some 0
         \<and> price_in_bounds now p = Some 0"
  using assms by (auto simp: price_in_filter_def getPrice_def price_in_bounds_def)

theorem missing_variants_price_zero_witness:
  "(price_in_filter 5 \<lparr>p_id = Some ''p1'', name = None, category_group = None,
                       variantsId = Some []\<rparr> = Some 0
    \<and> getPrice 5 \<lparr>p_id = Some ''p1'', name = None, category_group = None,
                   variantsId = Some []\<rparr> = Some 0
    \<and> price_in_bounds 5 \<lparr>p_id = Some ''p1'', name = None, category_group = None,
                          variantsId = Some []\<rparr> = Some 0)
   \<and> (price_in_filter 5 \<lparr>p_id = Some ''p2'', name = None, category_group = None,
                         variantsId = None\<rparr> = Some 0
    \<and> getPrice 5 \<lparr>p_id = Some ''p2'', name = None, category_group = None,
                   variantsId = None\<rparr> = Some 0
    \<and> price_in_bounds 5 \<lparr>p_id = Some ''p2'', name = None, category_group = None,
                          variantsId = None\<rparr> = Some 0)"
  using missing_variants_price_zero
    [of "\<lparr>p_id = Some ''p1'', name = None, category_group = None, variantsId = Some []\<rparr>" 5]
    missing_variants_price_zero
    [of "\<lparr>p_id = Some ''p2'', name = None, category_group = None, variantsId = None\<rparr>" 5]
  by simp

section \<open>Descendant ids\<close>

lemma foldl_append_concat:
  "foldl (\<lambda>ids child. ids @ f child) acc chs = acc @ concat (map f chs)"
  by (induction chs arbitrary: acc) simp_all

lemma getAllDescendantIds_unfold:
  "getAllDescendantIds (Category i n cs) =
     i # concat (map getAllDescendantIds (case cs of None \<Rightarrow> [] | Some chs \<Rightarrow> chs))"
  by (cases cs) (simp_all add: foldl_append_concat)

lemma getAllDescendantIds_preorder: "getAllDescendantIds c = preorder c"
proof (induction c rule: preorder.induct)
  case (1 i n cs)
  have "map getAllDescendantIds (case cs of None \<Rightarrow> [] | Some chs \<Rightarrow> chs)
        = map preorder (case cs of None \<Rightarrow> [] | Some chs \<Rightarrow> chs)"
    using "1.IH" by (intro map_cong refl)
  then show ?case
    by (simp only: getAllDescendantIds_unfold preorder.simps)
qed

lemma getAllDescendantIds_leaf:
  "children g = None \<or> children g = Some [] \<Longrightarrow> getAllDescendantIds g = [cat_id g]"
  by (cases g) auto

text \<open>
  Claim C9. The expansion of a category is its own id followed by the ids below it in
  depth-first pre-order (the children in their order, each followed by its own subtree).
  A category with two children that have one childless child each expands to the five
  ids root, first child, its child, second child, its child.
\<close>

theorem descendant_ids_preorder:
  "getAllDescendantIds c = preorder c
   \<and> ((children g1 = None \<or> children g1 = Some [])
        \<and> (children g2 = None \<or> children g2 = Some [])
      \<longrightarrow> getAllDescendantIds
            (Category r n (Some [Category a na (Some [g1]), Category b nb (Some [g2])]))
          = [r, a, cat_id g1, b, cat_id g2]
        \<and> length (getAllDescendantIds
            (Category r n (Some [Category a na (Some [g1]), Category b nb (Some [g2])]))) = 5)"
  by (simp add: getAllDescendantIds_preorder [symmetric] getAllDescendantIds_unfold
      getAllDescendantIds_leaf del: getAllDescendantIds.simps)

theorem descendant_ids_preorder_witness:
  "getAllDescendantIds
     (Category ''root'' ''Women'' (Some
        [Category ''c1'' ''Dresses'' (Some [Category ''g1'' ''Maxi'' None]),
         Category ''c2'' ''Tops'' (Some [Category ''g2'' ''Tunics'' (Some [])])]))
   = [''root'', ''c1'', ''g1'', ''c2'', ''g2'']"
  using descendant_ids_preorder
    [of _ "Category ''g1'' ''Maxi'' None" "Category ''g2'' ''Tunics'' (Some [])"
        "''root''" "''Women''" "''c1''" "''Dresses''" "''c2''" "''Tops''"]
  by simp

section \<open>Pagination\<close>



lemma js_slice_nonneg:
  assumes "0 \<le> s" and "0 \<le> e"
  shows "js_slice s e xs = take (nat (min e (int (length xs)) - min s (int (length xs)))) (drop (nat (min s (int (length xs)))) xs)"
  using assms by (simp add: js_slice_def Let_def)

lemma length_js_slice_page:
  assumes "0 \<le> s" and "0 \<le> n"
  shows "int (length (js_slice s (s + n) xs)) = min n (max 0 (int (length xs) - s))"
proof -
  have e: "0 \<le> s + n" using assms by simp
  show ?thesis
    unfolding js_slice_nonneg [OF assms(1) e] length_take length_drop
    using assms by linarith
qed

lemma js_slice_beyond:
  assumes "int (length xs) \<le> s"
  shows "js_slice s e xs = []"
proof -
  have "0 \<le> s" using assms by linarith
  then have "nat (min s (int (length xs))) = length xs" using assms by simp
  then show ?thesis using \<open>0 \<le> s\<close> by (simp add: js_slice_def Let_def)
qed



lemma div20_bounds:
  fixes m :: int
  shows "20 * ((m + 19) div 20 - 1) < m" and "m \<le> 20 * ((m + 19) div 20)"
proof -
  define z where "z = (m + 19) div 20"
  define r where "r = (m + 19) mod 20"
  have eq: "m + 19 = 20 * z + r"
    unfolding z_def r_def by simp
  have r0: "0 \<le> r" and r1: "r < 20"
    unfolding r_def by simp_all
  show "20 * ((m + 19) div 20 - 1) < m"
    unfolding z_def [symmetric] using eq r0 by arith
  show "m \<le> 20 * ((m + 19) div 20)"
    unfolding z_def [symmetric] using eq r1 by arith
qed

lemma ceiling_pages: "\<lceil>real n / real_of_int itemsPerPage\<rceil> = (int n + 19) div 20"
proof -
  define z where "z = (int n + 19) div 20"
  have lo: "20 * (z - 1) < int n" and hi: "int n \<le> 20 * z"
    unfolding z_def by (rule div20_bounds)+
  have "real_of_int (20 * (z - 1)) < real_of_int (int n)"
    using lo by (simp only: of_int_less_iff)
  then have lo': "real_of_int z - 1 < real n / 20" by simp
  have "real_of_int (int n) \<le> real_of_int (20 * z)"
    using hi by (simp only: of_int_le_iff)
  then have hi': "real n / 20 \<le> real_of_int z" by simp
  have "\<lceil>real n / 20\<rceil> = z"
    using lo' hi' by (rule ceiling_unique)
  then show ?thesis by (simp add: itemsPerPage_def z_def)
qed

lemma beyond_arith:
  assumes "(n + 19) div 20 \<le> (c::int) - 1"
  shows "n \<le> (c - 1) * 20"
proof -
  define z where "z = (n + 19) div 20"
  have "n \<le> 20 * z" unfolding z_def by (rule div20_bounds)
  moreover have "z \<le> c - 1" using assms by (simp add: z_def)
  ultimately show ?thesis by simp
qed

lemma pipeline_filtered:
  "filteredAndSorted (pipeline engine lc now later st ps) =
     js_sort engine (compare_products lc (sortBy st)) now later
       (filter (passes_filter now st) ps)"
  by (simp add: pipeline_def Let_def)

lemma pipeline_paginated:
  "paginatedProducts (pipeline engine lc now later st ps) =
     js_slice ((currentPage st - 1) * itemsPerPage) ((currentPage st - 1) * itemsPerPage + itemsPerPage)
       (filteredAndSorted (pipeline engine lc now later st ps))"
  by (simp add: pipeline_def Let_def)

lemma pipeline_totalPages:
  "totalPages (pipeline engine lc now later st ps) =
     \<lceil>real (length (filteredAndSorted (pipeline engine lc now later st ps))) / real_of_int itemsPerPage\<rceil>"
  by (simp add: pipeline_def Let_def)

text \<open>
  Claim C3. With the page size fixed at 20 and a current page of at least 1, the page
  shown has \<open>min 20 (max 0 (n - (page - 1) * 20))\<close> products, where \<open>n\<close> is the number of
  filtered products; the page count is \<open>n / 20\<close> rounded up; and a page beyond the page
  count is empty.
\<close>

theorem pagination_slice:
  assumes "1 \<le> currentPage st"
  shows "int (length (paginatedProducts (pipeline engine lc now later st ps)))
           = min itemsPerPage
               (max 0 (int (length (filteredAndSorted (pipeline engine lc now later st ps)))
                        - (currentPage st - 1) * itemsPerPage))
         \<and> itemsPerPage = 20
         \<and> totalPages (pipeline engine lc now later st ps)
           = \<lceil>real (length (filteredAndSorted (pipeline engine lc now later st ps))) / 20\<rceil>
         \<and> totalPages (pipeline engine lc now later st ps)
           = (int (length (filteredAndSorted (pipeline engine lc now later st ps))) + 19) div 20
         \<and> (totalPages (pipeline engine lc now later st ps) < currentPage st
              \<longrightarrow> paginatedProducts (pipeline engine lc now later st ps) = [])"
proof -
  let ?f = "filteredAndSorted (pipeline engine lc now later st ps)"
  have s: "0 \<le> (currentPage st - 1) * itemsPerPage"
    using assms by (simp add: itemsPerPage_def)
  have n: "0 \<le> itemsPerPage"
    by (simp add: itemsPerPage_def)
  have len: "int (length (paginatedProducts (pipeline engine lc now later st ps)))
      = min itemsPerPage (max 0 (int (length ?f) - (currentPage st - 1) * itemsPerPage))"
    unfolding pipeline_paginated by (rule length_js_slice_page [OF s n])
  have tp: "totalPages (pipeline engine lc now later st ps) = (int (length ?f) + 19) div 20"
    unfolding pipeline_totalPages by (rule ceiling_pages)
  have tp': "totalPages (pipeline engine lc now later st ps) = \<lceil>real (length ?f) / 20\<rceil>"
    unfolding pipeline_totalPages by (simp add: itemsPerPage_def)
  have beyond: "paginatedProducts (pipeline engine lc now later st ps) = []"
    if "totalPages (pipeline engine lc now later st ps) < currentPage st"
  proof -
    from that tp have "(int (length ?f) + 19) div 20 \<le> currentPage st - 1" by simp
    then have "int (length ?f) \<le> (currentPage st - 1) * 20"
      by (rule beyond_arith)
    then have "int (length ?f) \<le> (currentPage st - 1) * itemsPerPage"
      by (simp only: itemsPerPage_def)
    then show ?thesis
      unfolding pipeline_paginated by (rule js_slice_beyond)
  qed
  have ipp: "itemsPerPage = 20" by (simp add: itemsPerPage_def)
  from len ipp tp' tp beyond show ?thesis by blast
qed


theorem pagination_slice_witness:
  "1 \<le> currentPage sample_state
   \<and> int (length (paginatedProducts (pipeline binary_insertion_engine sample_compare 1500 [1501] sample_state
          [sample_product ''1'', sample_product ''2'']))) = 2
   \<and> totalPages (pipeline binary_insertion_engine sample_compare 1500 [1501] sample_state
          [sample_product ''1'', sample_product ''2'']) = 1"
proof -
  have h: "1 \<le> currentPage sample_state"
    by (simp add: sample_state_def)
  have n: "length (filteredAndSorted (pipeline binary_insertion_engine sample_compare 1500 [1501] sample_state
          [sample_product ''1'', sample_product ''2''])) = 2"
    by code_simp
  have c: "currentPage sample_state = 1"
    by (simp add: sample_state_def)
  show ?thesis
    using h pagination_slice [OF h, of binary_insertion_engine sample_compare 1500 "[1501]"
        "[sample_product ''1'', sample_product ''2'']"]
    by (simp add: n c)
qed

section \<open>Sorting\<close>

lemma mset_insert_sorted: "mset (insert_sorted cmp x ys) = add_mset x (mset ys)"
  by (induction ys) simp_all


lemma mset_stable_sort: "mset (stable_sort cmp xs) = mset xs"
  by (induction xs) (simp_all add: stable_sort_def mset_insert_sorted)


lemma mset_js_sort:
  assumes "reorders engine"
  shows "mset (js_sort engine comparefn now later xs) = mset xs"
  using assms by (simp add: js_sort_def mset_stable_sort reorders_def)

lemma set_js_sort:
  assumes "reorders engine"
  shows "set (js_sort engine comparefn now later xs) = set xs"
  using mset_js_sort [OF assms, of comparefn now later xs] by (metis set_mset_mset)

lemma length_js_sort:
  assumes "reorders engine"
  shows "length (js_sort engine comparefn now later xs) = length xs"
  using mset_js_sort [OF assms, of comparefn now later xs] by (metis size_mset)

lemma extend_run_append:
  "extend_run d cmp previous xs = (run, rest) \<Longrightarrow> run @ rest = xs"
proof (induction xs arbitrary: previous run rest)
  case Nil
  then show ?case by simp
next
  case (Cons x xs)
  define stop where "stop = (if d then cmp x previous \<ge> 0 else cmp x previous < 0)"
  obtain run' rest' where r: "extend_run d cmp x xs = (run', rest')"
    by (cases "extend_run d cmp x xs")
  have unfold: "extend_run d cmp previous (x # xs)
      = (if stop then ([], x # xs) else (x # run', rest'))"
    by (simp add: stop_def r)
  show ?case
  proof (cases stop)
    case True
    with Cons.prems unfold show ?thesis by simp
  next
    case False
    with Cons.prems unfold have "run = x # run'" "rest = rest'" by simp_all
    with Cons.IH [OF r] show ?thesis by simp
  qed
qed

lemma mset_count_and_make_run:
  assumes "count_and_make_run cmp a b xs = (run, rest)"
  shows "mset run + mset rest = mset (a # b # xs)"
proof -
  obtain run' rest' where r: "extend_run (cmp b a < 0) cmp b xs = (run', rest')"
    by (cases "extend_run (cmp b a < 0) cmp b xs")
  from extend_run_append [OF r] have xs: "run' @ rest' = xs" .
  from assms r have "mset run = mset (a # b # run')" and "rest = rest'"
    by (auto simp: count_and_make_run_def Let_def split: if_splits)
  with xs show ?thesis by (metis mset_append append_Cons)
qed

lemma mset_binary_insert: "mset (binary_insert cmp xs pivot) = add_mset pivot (mset xs)"
proof -
  define pos where "pos = binary_search cmp pivot xs 0 (length xs)"
  have "mset (take pos xs @ pivot # drop pos xs)
      = add_mset pivot (mset (take pos xs) + mset (drop pos xs))"
    by simp
  also have "mset (take pos xs) + mset (drop pos xs) = mset (take pos xs @ drop pos xs)"
    by (simp only: mset_append)
  also have "take pos xs @ drop pos xs = xs"
    by (rule append_take_drop_id)
  finally show ?thesis
    by (simp only: binary_insert_def Let_def pos_def [symmetric])
qed

lemma mset_foldl_binary_insert:
  "mset (foldl (binary_insert cmp) run rest) = mset run + mset rest"
  by (induction rest arbitrary: run) (simp_all add: mset_binary_insert)

lemma reorders_binary_insertion_engine: "reorders binary_insertion_engine"
  unfolding reorders_def
proof (intro allI)
  fix comparefn :: "int \<Rightarrow> int \<Rightarrow> 'a \<Rightarrow> 'a \<Rightarrow> int option" and now later and xs :: "'a list"
  show "mset (binary_insertion_engine comparefn now later xs) = mset xs"
  proof (cases xs)
    case Nil
    then show ?thesis by (simp add: binary_insertion_engine_def)
  next
    case (Cons a ys)
    show ?thesis
    proof (cases ys)
      case Nil
      with Cons show ?thesis by (simp add: binary_insertion_engine_def)
    next
      case (Cons b rest)
      obtain run remaining where
        r: "count_and_make_run (SortCompare (comparefn now now)) a b rest = (run, remaining)"
        by (cases "count_and_make_run (SortCompare (comparefn now now)) a b rest")
      have "mset (binary_insertion_engine comparefn now later xs) = mset run + mset remaining"
        using \<open>xs = a # ys\<close> Cons r
        by (simp add: binary_insertion_engine_def mset_foldl_binary_insert)
      with mset_count_and_make_run [OF r] \<open>xs = a # ys\<close> Cons show ?thesis by simp
    qed
  qed
qed











section \<open>Filtering\<close>


lemma starts_with_iff: "starts_with s t \<longleftrightarrow> (\<exists>post. s = t @ post)"
  by (induction s t rule: starts_with.induct) auto

lemma includes_str_iff: "includes_str hay needle \<longleftrightarrow> (\<exists>pre post. hay = pre @ needle @ post)"
proof (induction hay)
  case Nil
  show ?case by (simp add: starts_with_iff)
next
  case (Cons h hs)
  show ?case
  proof
    assume "includes_str (h # hs) needle"
    then consider "starts_with (h # hs) needle" | "includes_str hs needle" by auto
    then show "\<exists>pre post. h # hs = pre @ needle @ post"
    proof cases
      case 1
      then obtain post where "h # hs = needle @ post" by (auto simp: starts_with_iff)
      then have "h # hs = [] @ needle @ post" by simp
      then show ?thesis by blast
    next
      case 2
      then obtain pre post where "hs = pre @ needle @ post" using Cons.IH by blast
      then have "h # hs = (h # pre) @ needle @ post" by simp
      then show ?thesis by blast
    qed
  next
    assume "\<exists>pre post. h # hs = pre @ needle @ post"
    then obtain pre post where eq: "h # hs = pre @ needle @ post" by blast
    show "includes_str (h # hs) needle"
    proof (cases pre)
      case Nil
      with eq have "starts_with (h # hs) needle" by (auto simp: starts_with_iff)
      then show ?thesis by simp
    next
      case (Cons a pre')
      with eq have "hs = pre' @ needle @ post" by simp
      then have "includes_str hs needle" using Cons.IH by blast
      then show ?thesis by simp
    qed
  qed
qed

lemma trim_decomp: "\<exists>pre post. s = pre @ trim s @ post"
proof -
  define t where "t = dropWhile is_space s"
  have "rev t = takeWhile is_space (rev t) @ dropWhile is_space (rev t)"
    by (rule takeWhile_dropWhile_id [symmetric])
  then have "rev (rev t) = rev (takeWhile is_space (rev t) @ dropWhile is_space (rev t))"
    by (rule arg_cong)
  then have "t = rev (dropWhile is_space (rev t)) @ rev (takeWhile is_space (rev t))"
    by (simp only: rev_rev_ident rev_append)
  then have t: "t = trim s @ rev (takeWhile is_space (rev t))"
    by (simp only: trim_def t_def)
  have "s = takeWhile is_space s @ t"
    unfolding t_def by (rule takeWhile_dropWhile_id [symmetric])
  with t have "s = takeWhile is_space s @ trim s @ rev (takeWhile is_space (rev t))"
    by simp
  then show ?thesis by blast
qed

lemma includes_lower_trim:
  assumes "includes_str hay (toLowerCase q)"
  shows "\<exists>pre post. hay = pre @ toLowerCase (trim q) @ post"
proof -
  obtain a b where hay: "hay = a @ toLowerCase q @ b"
    using assms by (auto simp: includes_str_iff)
  obtain c d where q: "q = c @ trim q @ d"
    using trim_decomp by blast
  have "toLowerCase q = toLowerCase c @ toLowerCase (trim q) @ toLowerCase d"
    by (subst q) (simp add: toLowerCase_def)
  with hay have "hay = (a @ toLowerCase c) @ toLowerCase (trim q) @ (toLowerCase d @ b)"
    by simp
  then show ?thesis by blast
qed

lemma passes_filter_price:
  assumes "passes_filter now st p"
  shows "price_in_filter now p = None
         \<or> (\<exists>n. price_in_filter now p = Some n
                \<and> fst (priceRange st) \<le> n \<and> n \<le> snd (priceRange st))"
proof (cases "price_in_filter now p")
  case None
  then show ?thesis by simp
next
  case (Some n)
  from assms have "\<not> js_lt (price_in_filter now p) (Some (fst (priceRange st)))"
    and "\<not> js_lt (Some (snd (priceRange st))) (price_in_filter now p)"
    by (auto simp: passes_filter_def Let_def split: if_splits)
  with Some show ?thesis by (simp add: js_lt_def)
qed

lemma passes_filter_search:
  assumes "passes_filter now st p"
  shows "\<exists>pre post. searchIn p = pre @ toLowerCase (trim (searchQuery st)) @ post"
proof (cases "trim (searchQuery st) = []")
  case True
  then have "searchIn p = [] @ toLowerCase (trim (searchQuery st)) @ searchIn p"
    by (simp add: toLowerCase_def)
  then show ?thesis by blast
next
  case False
  with assms have "includes_str (searchIn p) (toLowerCase (searchQuery st))"
    by (auto simp: passes_filter_def Let_def split: if_splits)
  then show ?thesis by (rule includes_lower_trim)
qed

lemma passes_filter_cats:
  assumes "passes_filter now st p" and "selectedCats st \<noteq> []"
  shows "\<exists>tags. category_group p = Some tags \<and> (\<exists>c \<in> set tags. tag_id c \<in> set (selectedCats st))"
proof -
  from assms have "list_ex (\<lambda>i. i \<in> set (selectedCats st)) (prodCatIds p)"
    by (auto simp: passes_filter_def Let_def split: if_splits)
  then show ?thesis
    by (cases "category_group p") (auto simp: prodCatIds_def list_ex_iff)
qed

lemma passes_filter_sizes:
  assumes "passes_filter now st p" and "selectedSizes st \<noteq> []"
  shows "\<exists>vs. variantsId p = Some vs \<and>
           (\<exists>v \<in> set vs. \<exists>vals. variants_values v = Some vals
              \<and> (\<exists>sz \<in> set vals. sz \<in> set (selectedSizes st)))"
proof -
  from assms have "list_ex (\<lambda>sz. sz \<in> set (selectedSizes st)) (prodSizes p)"
    by (auto simp: passes_filter_def Let_def split: if_splits)
  then obtain sz where sz: "sz \<in> set (prodSizes p)" "sz \<in> set (selectedSizes st)"
    by (auto simp: list_ex_iff)
  from sz(1) obtain vs where vs: "variantsId p = Some vs"
    by (cases "variantsId p") (auto simp: prodSizes_def)
  with sz(1) obtain v where v: "v \<in> set vs"
      "sz \<in> set (case variants_values v of None \<Rightarrow> [] | Some vals \<Rightarrow> vals)"
    by (auto simp: prodSizes_def)
  from v(2) obtain vals where vals: "variants_values v = Some vals" "sz \<in> set vals"
    by (cases "variants_values v") auto
  from vs v(1) vals sz(2) show ?thesis by blast
qed

text \<open>
  Claim C2 (amended). For an engine whose sort returns an ordering of the array's
  elements, the filtered output is no longer than the product list, and each product in
  it comes from the list and meets the four clauses, the first one being: its effective
  price is \<open>NaN\<close> or lies in the inclusive price range. The other three are as stated:
  when the search text is not empty, the trimmed, lower-cased text occurs in the
  space-joined lower-cased product name, category names and variant conditions; when
  categories are selected, one of its category ids is selected; when sizes are selected,
  one of its variants' size values is selected.
\<close>

theorem filtered_satisfies_clauses:
  assumes "reorders engine"
  shows "length (filteredAndSorted (pipeline engine lc now later st ps)) \<le> length ps
   \<and> (\<forall>p \<in> set (filteredAndSorted (pipeline engine lc now later st ps)).
        p \<in> set ps
        \<and> (price_in_filter now p = None
            \<or> (\<exists>n. price_in_filter now p = Some n
                  \<and> fst (priceRange st) \<le> n \<and> n \<le> snd (priceRange st)))
        \<and> (searchQuery st \<noteq> [] \<longrightarrow>
             (\<exists>pre post. searchIn p = pre @ toLowerCase (trim (searchQuery st)) @ post))
        \<and> (selectedCats st \<noteq> [] \<longrightarrow>
             (\<exists>tags. category_group p = Some tags
                \<and> (\<exists>c \<in> set tags. tag_id c \<in> set (selectedCats st))))
        \<and> (selectedSizes st \<noteq> [] \<longrightarrow>
             (\<exists>vs. variantsId p = Some vs
                \<and> (\<exists>v \<in> set vs. \<exists>vals. variants_values v = Some vals
                      \<and> (\<exists>sz \<in> set vals. sz \<in> set (selectedSizes st))))))"
proof (intro conjI ballI)
  show "length (filteredAndSorted (pipeline engine lc now later st ps)) \<le> length ps"
    by (simp add: pipeline_filtered length_js_sort [OF assms])
next
  fix p
  assume "p \<in> set (filteredAndSorted (pipeline engine lc now later st ps))"
  then have mem: "p \<in> set ps" and pass: "passes_filter now st p"
    by (simp_all add: pipeline_filtered set_js_sort [OF assms])
  show "p \<in> set ps" by (rule mem)
  show "price_in_filter now p = None
      \<or> (\<exists>n. price_in_filter now p = Some n
            \<and> fst (priceRange st) \<le> n \<and> n \<le> snd (priceRange st))"
    using pass by (rule passes_filter_price)
  show "searchQuery st \<noteq> [] \<longrightarrow>
      (\<exists>pre post. searchIn p = pre @ toLowerCase (trim (searchQuery st)) @ post)"
    using passes_filter_search [OF pass] by simp
  show "selectedCats st \<noteq> [] \<longrightarrow>
      (\<exists>tags. category_group p = Some tags
         \<and> (\<exists>c \<in> set tags. tag_id c \<in> set (selectedCats st)))"
    using passes_filter_cats [OF pass] by simp
  show "selectedSizes st \<noteq> [] \<longrightarrow>
      (\<exists>vs. variantsId p = Some vs
         \<and> (\<exists>v \<in> set vs. \<exists>vals. variants_values v = Some vals
               \<and> (\<exists>sz \<in> set vals. sz \<in> set (selectedSizes st))))"
    using passes_filter_sizes [OF pass] by simp
qed

theorem filtered_satisfies_clauses_witness:
  "reorders (binary_insertion_engine ::
       (int \<Rightarrow> int \<Rightarrow> product \<Rightarrow> product \<Rightarrow> int option) \<Rightarrow> int \<Rightarrow> int list \<Rightarrow> product list
         \<Rightarrow> product list)
   \<and> sample_product ''1'' \<in> set (filteredAndSorted
       (pipeline binary_insertion_engine sample_compare 1500 [1501] sample_state
          [sample_product ''1'', sample_product ''2'']))
   \<and> price_in_filter 1500 (sample_product ''1'') = Some 80
   \<and> (\<exists>pre post. searchIn (sample_product ''1'') = pre @ ''shirt'' @ post)
   \<and> (\<exists>tags. category_group (sample_product ''1'') = Some tags
         \<and> (\<exists>c \<in> set tags. tag_id c \<in> set [''c1'']))"
proof -
  have eng: "reorders (binary_insertion_engine ::
       (int \<Rightarrow> int \<Rightarrow> product \<Rightarrow> product \<Rightarrow> int option) \<Rightarrow> int \<Rightarrow> int list \<Rightarrow> product list
         \<Rightarrow> product list)"
    by (rule reorders_binary_insertion_engine)
  have mem: "sample_product ''1'' \<in> set (filteredAndSorted
      (pipeline binary_insertion_engine sample_compare 1500 [1501] sample_state
         [sample_product ''1'', sample_product ''2'']))"
    by code_simp
  have q: "toLowerCase (trim (searchQuery sample_state)) = ''shirt''"
    by code_simp
  have price: "price_in_filter 1500 (sample_product ''1'') = Some 80"
    by code_simp
  have st: "priceRange sample_state = (0, 1000)" "searchQuery sample_state \<noteq> []"
      "selectedCats sample_state = [''c1'']"
    by (simp_all add: sample_state_def)
  have all: "\<forall>p \<in> set (filteredAndSorted
          (pipeline binary_insertion_engine sample_compare 1500 [1501] sample_state
             [sample_product ''1'', sample_product ''2''])).
        p \<in> set [sample_product ''1'', sample_product ''2'']
        \<and> (price_in_filter 1500 p = None
            \<or> (\<exists>n. price_in_filter 1500 p = Some n
                  \<and> fst (priceRange sample_state) \<le> n \<and> n \<le> snd (priceRange sample_state)))
        \<and> (searchQuery sample_state \<noteq> [] \<longrightarrow>
             (\<exists>pre post. searchIn p = pre @ toLowerCase (trim (searchQuery sample_state)) @ post))
        \<and> (selectedCats sample_state \<noteq> [] \<longrightarrow>
             (\<exists>tags. category_group p = Some tags
                \<and> (\<exists>c \<in> set tags. tag_id c \<in> set (selectedCats sample_state))))
        \<and> (selectedSizes sample_state \<noteq> [] \<longrightarrow>
             (\<exists>vs. variantsId p = Some vs
                \<and> (\<exists>v \<in> set vs. \<exists>vals. variants_values v = Some vals
                      \<and> (\<exists>sz \<in> set vals. sz \<in> set (selectedSizes sample_state)))))"
    using filtered_satisfies_clauses [OF eng, of sample_compare 1500 "[1501]" sample_state
        "[sample_product ''1'', sample_product ''2'']"]
    by (rule conjunct2)
  from bspec [OF all mem] mem st(2) eng price show ?thesis
    unfolding q st(1,3) by simp
qed

text \<open>
  A product whose selling price is a string that reads as no number has the effective
  price \<open>NaN\<close>, which is not within the range from 0 to 1000, and it is in the output.
\<close>

theorem price_range_counterexample:
  "price_in_filter 1500 (priced_product ''d'' NotNumeric) = None
   \<and> priceRange (unfiltered_state Newest) = (0, 1000)
   \<and> priced_product ''d'' NotNumeric \<in> set (filteredAndSorted
        (pipeline binary_insertion_engine sample_compare 1500 [] (unfiltered_state Newest)
           [priced_product ''d'' NotNumeric]))"
  by code_simp

section \<open>The input array is not written\<close>


lemma pipeline_on_store_eq:
  assumes "a < length h"
  shows "pipeline_on_store engine lc now later st a h =
     ((length h, Suc (length h), totalPages (pipeline engine lc now later st (h ! a))),
      h @ [filteredAndSorted (pipeline engine lc now later st (h ! a)),
           paginatedProducts (pipeline engine lc now later st (h ! a))])"
  using assms
  by (simp add: pipeline_on_store_def array_filter_def array_sort_def array_slice_def
      pipeline_def Let_def nth_append list_update_append)

text \<open>
  Claim C10. A run of the pipeline on the array at a valid address leaves that array, and
  every other array that existed before, as it was: the filtered list is a newly allocated
  array, the sort overwrites only that new array, and the page is another new array. The
  three results are the ones the pure function computes from the input array and the
  parameters (the clock being one of them).
\<close>

theorem pipeline_leaves_input_unchanged:
  assumes "a < length h"
  shows "case pipeline_on_store engine lc now later st a h of
           ((filtered, paginated, pages), h') \<Rightarrow>
             h' ! a = h ! a
             \<and> take (length h) h' = h
             \<and> length h \<le> filtered \<and> length h \<le> paginated \<and> filtered \<noteq> paginated
             \<and> filtered < length h' \<and> paginated < length h'
             \<and> h' ! filtered = filteredAndSorted (pipeline engine lc now later st (h ! a))
             \<and> h' ! paginated = paginatedProducts (pipeline engine lc now later st (h ! a))
             \<and> pages = totalPages (pipeline engine lc now later st (h ! a))"
  using assms by (simp add: pipeline_on_store_eq nth_append)

theorem pipeline_leaves_input_unchanged_witness:
  "(0::nat) < length [[sample_product ''a'', sample_product ''b'']]
   \<and> snd (pipeline_on_store binary_insertion_engine sample_compare 1500 [] (sample_state\<lparr>sortBy := Newest\<rparr>) 0
          [[sample_product ''a'', sample_product ''b'']]) ! 0
     = [sample_product ''a'', sample_product ''b'']"
proof -
  have h: "(0::nat) < length [[sample_product ''a'', sample_product ''b'']]"
    by simp
  show ?thesis
    using h pipeline_leaves_input_unchanged [OF h, of binary_insertion_engine sample_compare 1500 "[]"
        "sample_state\<lparr>sortBy := Newest\<rparr>"]
    by (simp add: split_beta)
qed

section \<open>Pagination defaults\<close>


lemma or_default_nonzero: "d \<noteq> 0 \<Longrightarrow> or_default n d \<noteq> 0"
  by (simp add: or_default_def split: option.split)

lemma digit_val_zero: "digit_val 10 CHR ''0'' = Some 0"
  by (simp add: digit_val_def)

lemma parseInt_Nil: "parseInt [] = None"
  by (simp add: parseInt_def)

lemma parseInt_non_numeric:
  assumes "\<not> is_space c" and "c \<noteq> CHR ''-''" and "c \<noteq> CHR ''+''"
    and "digit_val 10 c = None"
  shows "parseInt (c # cs) = None"
proof -
  have c0: "c \<noteq> CHR ''0''"
    using assms(4) digit_val_zero by auto
  have s0: "dropWhile is_space (c # cs) = c # cs"
    using assms(1) by simp
  have nosign: "\<not> starts_with (c # cs) ''-''" "\<not> starts_with (c # cs) ''+''"
    using assms(2,3) by simp_all
  have nohex: "\<not> starts_with (c # cs) ''0x''" "\<not> starts_with (c # cs) ''0X''"
    using c0 by simp_all
  show ?thesis
    unfolding parseInt_def s0 Let_def using nosign nohex assms(4) c0 by simp
qed

text \<open>
  Claim C6 (amended). The two defaults never fail and are never 0. A missing parameter,
  an empty one, one that starts with a character that is neither white space, a sign nor
  a digit, and more generally one that \<open>parseInt\<close> reads as \<open>NaN\<close> or as 0, gives page 1
  and limit 20. Any other value gives the integer \<open>parseInt\<close> reads, so the page is at
  least 1 exactly when that integer is not negative.
\<close>

theorem query_defaults:
  "page q \<noteq> 0 \<and> limit q \<noteq> 0
   \<and> page Undefined = 1 \<and> limit Undefined = 20
   \<and> page (Str []) = 1 \<and> limit (Str []) = 20
   \<and> (\<forall>c cs. \<not> is_space c \<and> c \<noteq> CHR ''-'' \<and> c \<noteq> CHR ''+'' \<and> digit_val 10 c = None
         \<longrightarrow> page (Str (c # cs)) = 1 \<and> limit (Str (c # cs)) = 20)
   \<and> (parseInt (ToString q) = None \<or> parseInt (ToString q) = Some 0
         \<longrightarrow> page q = 1 \<and> limit q = 20)
   \<and> (\<forall>n. parseInt (ToString q) = Some n \<and> n \<noteq> 0 \<longrightarrow> page q = n \<and> limit q = n)
   \<and> (1 \<le> page q \<longleftrightarrow> \<not> (\<exists>n. n < 0 \<and> parseInt (ToString q) = Some n))"
proof -
  have nz: "page q \<noteq> 0" "limit q \<noteq> 0"
    by (simp_all add: page_def limit_def or_default_nonzero)
  have und: "parseInt ''undefined'' = None"
    by code_simp
  have missing: "page Undefined = 1" "limit Undefined = 20"
    by (simp_all add: page_def limit_def und or_default_def)
  have empty: "page (Str []) = 1" "limit (Str []) = 20"
    by (simp_all add: page_def limit_def parseInt_Nil or_default_def)
  have nonnum: "page (Str (c # cs)) = 1 \<and> limit (Str (c # cs)) = 20"
    if "\<not> is_space c \<and> c \<noteq> CHR ''-'' \<and> c \<noteq> CHR ''+'' \<and> digit_val 10 c = None" for c cs
    using that by (simp add: page_def limit_def parseInt_non_numeric or_default_def)
  have fallback: "page q = 1 \<and> limit q = 20"
    if "parseInt (ToString q) = None \<or> parseInt (ToString q) = Some 0"
    using that by (auto simp: page_def limit_def or_default_def)
  have parsed: "page q = n \<and> limit q = n" if "parseInt (ToString q) = Some n \<and> n \<noteq> 0" for n
    using that by (simp add: page_def limit_def or_default_def)
  have ge1: "1 \<le> page q \<longleftrightarrow> \<not> (\<exists>n. n < 0 \<and> parseInt (ToString q) = Some n)"
    by (cases "parseInt (ToString q)") (auto simp: page_def or_default_def)
  from nz missing empty nonnum fallback parsed ge1 show ?thesis by blast
qed

theorem query_defaults_witness:
  "page (Str ''abc'') = 1 \<and> limit (Str ''abc'') = 20
   \<and> page (Str ''3'') = 3 \<and> limit (Str ''50'') = 50
   \<and> page (Str ''0'') = 1 \<and> page (Str ''12abc'') = 12"
proof -
  have a: "\<not> is_space CHR ''a'' \<and> CHR ''a'' \<noteq> CHR ''-'' \<and> CHR ''a'' \<noteq> CHR ''+''
      \<and> digit_val 10 CHR ''a'' = None"
    by code_simp
  have p3: "parseInt (ToString (Str ''3'')) = Some 3 \<and> (3::int) \<noteq> 0" by code_simp
  have p50: "parseInt (ToString (Str ''50'')) = Some 50 \<and> (50::int) \<noteq> 0" by code_simp
  have p0: "parseInt (ToString (Str ''0'')) = None \<or> parseInt (ToString (Str ''0'')) = Some 0"
    by code_simp
  have p12: "parseInt (ToString (Str ''12abc'')) = Some 12 \<and> (12::int) \<noteq> 0" by code_simp
  from query_defaults [of "Str ''3''"] p3 have "page (Str ''3'') = 3" by blast
  moreover from query_defaults [of "Str ''50''"] p50 have "limit (Str ''50'') = 50" by blast
  moreover from query_defaults [of "Str ''0''"] p0 have "page (Str ''0'') = 1" by blast
  moreover from query_defaults [of "Str ''12abc''"] p12 have "page (Str ''12abc'') = 12" by blast
  moreover from query_defaults [of "Str ''3''"] a
  have "page (Str ''abc'') = 1 \<and> limit (Str ''abc'') = 20" by blast
  ultimately show ?thesis by blast
qed

text \<open>The query \<open>page=-5\<close> seeds page \<open>-5\<close>, which is below 1.\<close>

theorem page_at_least_one_counterexample:
  "page (Str ''-5'') = - 5 \<and> \<not> 1 \<le> page (Str ''-5'')"
  by code_simp

section \<open>Effective price\<close>


lemma find_skip_prefix:
  assumes "\<forall>x \<in> set pre. \<not> P x"
  shows "find P (pre @ ys) = find P ys"
  using assms by (induction pre) simp_all

lemma find_none:
  assumes "\<forall>x \<in> set xs. \<not> P x"
  shows "find P xs = None"
  using assms by (induction xs) simp_all

lemma chosen_variant:
  assumes pre: "\<forall>x \<in> set pre. variants_stock x \<le> 0"
    and v: "0 < variants_stock v \<or> (pre = [] \<and> (\<forall>x \<in> set post. variants_stock x \<le> 0))"
  shows "(case find (\<lambda>x. variants_stock x > 0) (pre @ v # post) of
            Some w \<Rightarrow> Some w
          | None \<Rightarrow> (case pre @ v # post of [] \<Rightarrow> None | w # _ \<Rightarrow> Some w)) = Some v"
proof (cases "0 < variants_stock v")
  case True
  have "find (\<lambda>x. variants_stock x > 0) (pre @ v # post)
        = find (\<lambda>x. variants_stock x > 0) (v # post)"
    by (rule find_skip_prefix) (use pre in auto)
  with True show ?thesis by simp
next
  case False
  with v have nil: "pre = []" and post: "\<forall>x \<in> set post. variants_stock x \<le> 0" by auto
  have "find (\<lambda>x. variants_stock x > 0) (v # post) = None"
    by (rule find_none) (use False post in auto)
  with nil show ?thesis by simp
qed

lemma prices_agree:
  "getPrice now p = price_in_filter now p" "price_in_bounds now p = price_in_filter now p"
  by (simp_all add: getPrice_def price_in_bounds_def price_in_filter_def)

text \<open>
  Claim C4 (amended). The effective price is computed from the first variant with
  positive stock, or from the first variant when none has stock. With the selling price
  read as 0 when absent and an absent start or end date read as instant 0, the offer
  price is used exactly when it is present, is not the number 0, is strictly below the
  selling price, and the current instant lies in [start, end]; otherwise the selling
  price is used. The three copies of the computation agree. In particular the price is
  the selling price outside the window, and whenever the offer price is not below it.
\<close>

theorem effective_price_rule:
  assumes vs: "variantsId p = Some (pre @ v # post)"
    and pre: "\<forall>x \<in> set pre. variants_stock x \<le> 0"
    and v: "0 < variants_stock v \<or> (pre = [] \<and> (\<forall>x \<in> set post. variants_stock x \<le> 0))"
    and sell: "sell = (case selling_price v of None \<Rightarrow> Some 0 | Some x \<Rightarrow> jsnum_value x)"
    and start: "start = (case discount_start_date v of None \<Rightarrow> 0 | Some t \<Rightarrow> t)"
    and "end": "end = (case discount_end_date v of None \<Rightarrow> 0 | Some t \<Rightarrow> t)"
  shows "price_in_filter now p =
           (if (\<exists>x. offer_price v = Some x \<and> x \<noteq> Num 0 \<and> js_lt (jsnum_value x) sell)
               \<and> start \<le> now \<and> now \<le> end
            then jsnum_value (the (offer_price v)) else sell)
         \<and> getPrice now p = price_in_filter now p
         \<and> price_in_bounds now p = price_in_filter now p
         \<and> (now < start \<or> end < now \<longrightarrow> price_in_filter now p = sell)
         \<and> ((\<forall>x. offer_price v = Some x \<longrightarrow> \<not> js_lt (jsnum_value x) sell)
              \<longrightarrow> price_in_filter now p = sell)"
proof -
  have ch: "(case find (\<lambda>x. variants_stock x > 0) (pre @ v # post) of
            Some w \<Rightarrow> Some w
          | None \<Rightarrow> (case pre @ v # post of [] \<Rightarrow> None | w # _ \<Rightarrow> Some w)) = Some v"
    using pre v by (rule chosen_variant)
  have s: "Number_or (selling_price v) (Some 0) = sell"
    unfolding sell by (simp add: Number_or_def jsnum_value_def split: option.split)
  have price: "price_in_filter now p =
      (let offer = Number_or (offer_price v) sell in
       if js_lt offer sell \<and> start \<le> now \<and> now \<le> end then offer else sell)"
    unfolding price_in_filter_def vs option.case ch s getTime_or_0_def start "end"
    by (simp add: Let_def)
  have nolt: "\<not> js_lt sell sell"
    by (simp add: js_lt_def split: option.split)
  have main: "price_in_filter now p =
           (if (\<exists>x. offer_price v = Some x \<and> x \<noteq> Num 0 \<and> js_lt (jsnum_value x) sell)
               \<and> start \<le> now \<and> now \<le> end
            then jsnum_value (the (offer_price v)) else sell)"
  proof (cases "offer_price v")
    case None
    then show ?thesis by (simp add: price Number_or_def nolt)
  next
    case (Some x)
    then show ?thesis
      by (simp add: price Number_or_def Let_def nolt)
  qed
  have outside: "price_in_filter now p = sell" if "now < start \<or> end < now"
    using that by (auto simp: price Let_def)
  have notless: "price_in_filter now p = sell"
    if "\<forall>x. offer_price v = Some x \<longrightarrow> \<not> js_lt (jsnum_value x) sell"
    using that unfolding main by auto
  from main outside notless show ?thesis
    by (simp add: prices_agree)
qed

text \<open>Selling price 100, offer 80, window [1000, 2000]: 80 inside the window, 100 outside.\<close>

theorem effective_price_rule_witness:
  "price_in_filter 1500 (sample_product ''1'') = Some 80
   \<and> price_in_filter 500 (sample_product ''1'') = Some 100
   \<and> price_in_filter 2500 (sample_product ''1'') = Some 100"
proof -
  have vs: "variantsId (sample_product ''1'') = Some ([] @ sample_variant # [])"
    by (simp add: sample_product_def)
  have pre: "\<forall>x \<in> set []. variants_stock x \<le> 0"
    by simp
  have v: "0 < variants_stock sample_variant
      \<or> ([] = ([] :: variant list) \<and> (\<forall>x \<in> set []. variants_stock x \<le> 0))"
    by (simp add: sample_variant_def)
  have sell: "Some 100 = (case selling_price sample_variant of None \<Rightarrow> Some 0
      | Some x \<Rightarrow> jsnum_value x)"
    by (simp add: sample_variant_def jsnum_value_def)
  have start: "1000 = (case discount_start_date sample_variant of None \<Rightarrow> 0 | Some t \<Rightarrow> t)"
    by (simp add: sample_variant_def)
  have "end": "2000 = (case discount_end_date sample_variant of None \<Rightarrow> 0 | Some t \<Rightarrow> t)"
    by (simp add: sample_variant_def)
  have offer: "offer_price sample_variant = Some (Num 80)"
    by (simp add: sample_variant_def)
  note rule = effective_price_rule [OF vs pre v sell start "end"]
  from rule [of 1500] have "price_in_filter 1500 (sample_product ''1'') = Some 80"
    by (simp add: offer jsnum_value_def js_lt_def)
  moreover from rule [of 500] have "price_in_filter 500 (sample_product ''1'') = Some 100"
    by simp
  moreover from rule [of 2500] have "price_in_filter 2500 (sample_product ''1'') = Some 100"
    by simp
  ultimately show ?thesis by blast
qed

text \<open>
  An offer price that is the number 0, below the selling price 100 and inside its window
  [1000, 2000] at instant 1500, is not used: the effective price is 100.
\<close>

theorem offer_price_zero_counterexample:
  "(0::int) < 100 \<and> (1000::int) \<le> 1500 \<and> (1500::int) \<le> 2000
   \<and> price_in_filter 1500
        \<lparr>p_id = Some ''1'', name = None, category_group = None,
         variantsId = Some
           [\<lparr>selling_price = Some (Num 100), offer_price = Some (Num 0),
             discount_start_date = Some 1000, discount_end_date = Some 2000,
             variants_stock = 5, variants_values = None, condition = None\<rparr>]\<rparr> = Some 100"
  by code_simp

section \<open>Category resolver\<close>


lemma find_Some_decomp:
  "find P xs = Some x \<longleftrightarrow>
     (\<exists>pre post. xs = pre @ x # post \<and> P x \<and> (\<forall>d \<in> set pre. \<not> P d))"
proof (induction xs)
  case Nil
  show ?case by simp
next
  case (Cons a xs)
  show ?case
  proof (cases "P a")
    case True
    have "(\<exists>pre post. a # xs = pre @ x # post \<and> P x \<and> (\<forall>d \<in> set pre. \<not> P d)) \<longleftrightarrow> x = a"
    proof
      assume "\<exists>pre post. a # xs = pre @ x # post \<and> P x \<and> (\<forall>d \<in> set pre. \<not> P d)"
      then obtain pre post where eq: "a # xs = pre @ x # post" and no: "\<forall>d \<in> set pre. \<not> P d"
        by blast
      show "x = a"
      proof (cases pre)
        case Nil
        with eq show ?thesis by simp
      next
        case (Cons b pre')
        with eq have "b = a" by simp
        with Cons no True show ?thesis by simp
      qed
    next
      assume "x = a"
      then have "a # xs = [] @ x # xs \<and> P x \<and> (\<forall>d \<in> set []. \<not> P d)"
        using True by simp
      then show "\<exists>pre post. a # xs = pre @ x # post \<and> P x \<and> (\<forall>d \<in> set pre. \<not> P d)"
        by blast
    qed
    with True show ?thesis by auto
  next
    case False
    have "(\<exists>pre post. a # xs = pre @ x # post \<and> P x \<and> (\<forall>d \<in> set pre. \<not> P d))
        \<longleftrightarrow> (\<exists>pre post. xs = pre @ x # post \<and> P x \<and> (\<forall>d \<in> set pre. \<not> P d))"
    proof
      assume "\<exists>pre post. a # xs = pre @ x # post \<and> P x \<and> (\<forall>d \<in> set pre. \<not> P d)"
      then obtain pre post where eq: "a # xs = pre @ x # post" and px: "P x"
        and no: "\<forall>d \<in> set pre. \<not> P d"
        by blast
      show "\<exists>pre post. xs = pre @ x # post \<and> P x \<and> (\<forall>d \<in> set pre. \<not> P d)"
      proof (cases pre)
        case Nil
        with eq px False show ?thesis by simp
      next
        case (Cons b pre')
        with eq no have "xs = pre' @ x # post" "\<forall>d \<in> set pre'. \<not> P d" by simp_all
        with px show ?thesis by blast
      qed
    next
      assume "\<exists>pre post. xs = pre @ x # post \<and> P x \<and> (\<forall>d \<in> set pre. \<not> P d)"
      then obtain pre post where "xs = pre @ x # post" "P x" "\<forall>d \<in> set pre. \<not> P d"
        by blast
      with False have "a # xs = (a # pre) @ x # post \<and> P x \<and> (\<forall>d \<in> set (a # pre). \<not> P d)"
        by simp
      then show "\<exists>pre post. a # xs = pre @ x # post \<and> P x \<and> (\<forall>d \<in> set pre. \<not> P d)"
        by blast
    qed
    with False Cons.IH show ?thesis by simp
  qed
qed

lemma toLowerCase_char_idem: "toLowerCase_char (toLowerCase_char c) = toLowerCase_char c"
  by (auto simp: toLowerCase_char_def Let_def)

lemma toLowerCase_idem: "toLowerCase (toLowerCase s) = toLowerCase s"
  by (simp add: toLowerCase_def toLowerCase_char_idem)

lemma hyphen_lower: "toLowerCase_char CHR ''-'' = CHR ''-''"
  by (simp add: toLowerCase_char_def)


lemma set_replace_spaces:
  "set (replace_spaces b s) \<subseteq> insert CHR ''-'' {c \<in> set s. \<not> is_space c}"
  by (induction b s rule: replace_spaces.induct) auto

lemma set_collapse_hyphens: "set (collapse_hyphens s) \<subseteq> set s"
  by (induction s rule: collapse_hyphens.induct) auto

lemma collapse_hyphens_Cons:
  "\<exists>rest. collapse_hyphens (c # cs) = c # rest"
  by (induction cs arbitrary: c) auto

lemma no_double_collapse: "no_double_hyphen (collapse_hyphens s)"
proof (induction s rule: collapse_hyphens.induct)
  case (3 c d cs)
  obtain rest where r: "collapse_hyphens (d # cs) = d # rest"
    using collapse_hyphens_Cons by blast
  with 3 show ?case by auto
qed simp_all

lemma collapse_fixed: "no_double_hyphen s \<Longrightarrow> collapse_hyphens s = s"
  by (induction s rule: collapse_hyphens.induct) auto

lemma no_double_tl: "no_double_hyphen (c # cs) \<Longrightarrow> no_double_hyphen cs"
  by (cases cs) auto

lemma no_double_suffix: "no_double_hyphen (xs @ ys) \<Longrightarrow> no_double_hyphen ys"
  by (induction xs) (auto dest: no_double_tl)

lemma no_double_prefix: "no_double_hyphen (xs @ ys) \<Longrightarrow> no_double_hyphen xs"
proof (induction xs rule: no_double_hyphen.induct)
  case (3 c d cs)
  then show ?case by auto
qed simp_all

lemma replace_spaces_fixed: "\<forall>c \<in> set s. \<not> is_space c \<Longrightarrow> replace_spaces b s = s"
  by (induction b s rule: replace_spaces.induct) auto

lemma strip_trailing_decomp:
  "s = strip_trailing_hyphens s @ rev (takeWhile (\<lambda>c. c = CHR ''-'') (rev s))"
proof -
  have "rev s = takeWhile (\<lambda>c. c = CHR ''-'') (rev s) @ dropWhile (\<lambda>c. c = CHR ''-'') (rev s)"
    by (rule takeWhile_dropWhile_id [symmetric])
  then have "rev (rev s) = rev (takeWhile (\<lambda>c. c = CHR ''-'') (rev s)
      @ dropWhile (\<lambda>c. c = CHR ''-'') (rev s))"
    by (rule arg_cong)
  then show ?thesis
    by (simp only: rev_rev_ident rev_append strip_trailing_hyphens_def)
qed

lemma strip_leading_decomp:
  "s = takeWhile (\<lambda>c. c = CHR ''-'') s @ strip_leading_hyphens s"
  by (simp add: strip_leading_hyphens_def)

lemma slug_char_not_space: "slug_char c \<Longrightarrow> \<not> is_space c"
  by (auto simp: slug_char_def is_word_def is_space_def Let_def)

lemma dropWhile_fixed: "xs = [] \<or> \<not> P (hd xs) \<Longrightarrow> dropWhile P xs = xs"
  by (cases xs) auto

lemma createSlug_fixed:
  assumes "is_slug r"
  shows "createSlug r = r"
proof -
  from assms have chars: "\<forall>c \<in> set r. slug_char c" and nd: "no_double_hyphen r"
    and ends: "r = [] \<or> (hd r \<noteq> CHR ''-'' \<and> last r \<noteq> CHR ''-'')"
    by (simp_all add: is_slug_def)
  have 1: "toLowerCase r = r"
    unfolding toLowerCase_def using chars by (intro map_idI) (simp add: slug_char_def)
  have 2: "replace_spaces False r = r"
    using chars by (intro replace_spaces_fixed) (simp add: slug_char_not_space)
  have 3: "strip_non_word r = r"
    unfolding strip_non_word_def using chars by (simp add: slug_char_def)
  have 4: "collapse_hyphens r = r"
    using nd by (rule collapse_fixed)
  have 5: "strip_leading_hyphens r = r"
    unfolding strip_leading_hyphens_def using ends by (intro dropWhile_fixed) auto
  have "dropWhile (\<lambda>c. c = CHR ''-'') (rev r) = rev r"
    using ends by (intro dropWhile_fixed) (auto simp: hd_rev)
  then have 6: "strip_trailing_hyphens r = r"
    by (simp add: strip_trailing_hyphens_def)
  show ?thesis
    by (simp only: createSlug_def 1 2 3 4 5 6)
qed

lemma is_slug_createSlug: "is_slug (createSlug s)"
proof -
  define s1 where "s1 = toLowerCase s"
  define s2 where "s2 = replace_spaces False s1"
  define s3 where "s3 = strip_non_word s2"
  define s4 where "s4 = collapse_hyphens s3"
  define s5 where "s5 = strip_leading_hyphens s4"
  define r where "r = strip_trailing_hyphens s5"
  have r_eq: "createSlug s = r"
    unfolding createSlug_def r_def s5_def s4_def s3_def s2_def s1_def by (rule refl)
  have low1: "toLowerCase_char x = x" if "x \<in> set s1" for x
  proof -
    from that obtain y where "x = toLowerCase_char y"
      unfolding s1_def toLowerCase_def by auto
    then show ?thesis by (simp add: toLowerCase_char_idem)
  qed
  have low2: "toLowerCase_char x = x" if "x \<in> set s2" for x
  proof -
    from that set_replace_spaces [of False s1]
    have "x = CHR ''-'' \<or> x \<in> set s1"
      unfolding s2_def by blast
    then show ?thesis using low1 hyphen_lower by blast
  qed
  have chars3: "slug_char x" if "x \<in> set s3" for x
  proof -
    from that have "x \<in> set s2" and "is_word x \<or> x = CHR ''-''"
      unfolding s3_def strip_non_word_def by simp_all
    then show ?thesis unfolding slug_char_def using low2 by blast
  qed
  have chars4: "slug_char x" if "x \<in> set s4" for x
    using that set_collapse_hyphens [of s3] chars3 unfolding s4_def by blast
  have nd4: "no_double_hyphen s4"
    unfolding s4_def by (rule no_double_collapse)
  have dec4: "s4 = takeWhile (\<lambda>c. c = CHR ''-'') s4 @ s5"
    unfolding s5_def by (rule strip_leading_decomp)
  have dec5: "s5 = r @ rev (takeWhile (\<lambda>c. c = CHR ''-'') (rev s5))"
    unfolding r_def by (rule strip_trailing_decomp)
  have sub5: "set s5 \<subseteq> set s4"
  proof -
    have "set s4 = set (takeWhile (\<lambda>c. c = CHR ''-'') s4) \<union> set s5"
      by (subst dec4) (simp only: set_append)
    then show ?thesis by blast
  qed
  have subr: "set r \<subseteq> set s5"
  proof -
    have "set s5 = set r \<union> set (rev (takeWhile (\<lambda>c. c = CHR ''-'') (rev s5)))"
      by (subst dec5) (simp only: set_append)
    then show ?thesis by blast
  qed
  have r_chars: "\<forall>x \<in> set r. slug_char x"
    using chars4 sub5 subr by blast
  have nd5: "no_double_hyphen s5"
  proof (rule no_double_suffix)
    show "no_double_hyphen (takeWhile (\<lambda>c. c = CHR ''-'') s4 @ s5)"
      using nd4 dec4 by simp
  qed
  have r_nd: "no_double_hyphen r"
  proof (rule no_double_prefix)
    show "no_double_hyphen (r @ rev (takeWhile (\<lambda>c. c = CHR ''-'') (rev s5)))"
      using nd5 dec5 by simp
  qed
  have r_ends: "hd r \<noteq> CHR ''-'' \<and> last r \<noteq> CHR ''-''" if ne: "r \<noteq> []"
  proof
    have ne5: "s5 \<noteq> []"
    proof
      assume "s5 = []"
      then have "r = []" by (simp add: r_def strip_trailing_hyphens_def)
      with ne show False by simp
    qed
    have "dropWhile (\<lambda>c. c = CHR ''-'') s4 \<noteq> []"
      using ne5 unfolding s5_def strip_leading_hyphens_def .
    then have "\<not> (hd (dropWhile (\<lambda>c. c = CHR ''-'') s4) = CHR ''-'')"
      by (rule hd_dropWhile)
    then have h5: "hd s5 \<noteq> CHR ''-''"
      unfolding s5_def strip_leading_hyphens_def .
    have "hd s5 = hd (r @ rev (takeWhile (\<lambda>c. c = CHR ''-'') (rev s5)))"
      using dec5 by simp
    also have "\<dots> = hd r"
      using ne by (rule hd_append2)
    finally show "hd r \<noteq> CHR ''-''"
      using h5 by simp
    have rr: "rev r = dropWhile (\<lambda>c. c = CHR ''-'') (rev s5)"
      by (simp add: r_def strip_trailing_hyphens_def)
    have "dropWhile (\<lambda>c. c = CHR ''-'') (rev s5) \<noteq> []"
      using ne rr by (metis rev_is_Nil_conv)
    then have "\<not> (hd (dropWhile (\<lambda>c. c = CHR ''-'') (rev s5)) = CHR ''-'')"
      by (rule hd_dropWhile)
    then have "hd (rev r) \<noteq> CHR ''-''"
      unfolding rr .
    then show "last r \<noteq> CHR ''-''"
      using ne by (simp add: hd_rev)
  qed
  from r_chars r_nd r_ends show ?thesis
    unfolding r_eq is_slug_def by blast
qed

lemma createSlug_idem: "createSlug (createSlug s) = createSlug s"
  using is_slug_createSlug by (rule createSlug_fixed)

lemma createSlug_lower: "createSlug (toLowerCase s) = createSlug s"
  by (simp add: createSlug_def toLowerCase_idem)

text \<open>
  Claim C1 (amended). The resolver returns the first category, in list order, whose
  slugified name equals the requested slug in lower case, and no category when there is
  none (or when the business has no category list). A category it returns also has the
  same slug as the requested slug slugified; the converse does not hold, because the
  requested slug is only lower-cased before the comparison.
\<close>

theorem resolver_first_match:
  "(mainCategory slug (Some cats) = Some c \<longleftrightarrow>
      (\<exists>pre post. cats = pre @ c # post
         \<and> createSlug (cat_name c) = toLowerCase slug
         \<and> (\<forall>d \<in> set pre. createSlug (cat_name d) \<noteq> toLowerCase slug)))
   \<and> (mainCategory slug (Some cats) = None \<longleftrightarrow>
        (\<forall>d \<in> set cats. createSlug (cat_name d) \<noteq> toLowerCase slug))
   \<and> mainCategory slug None = None
   \<and> (mainCategory slug categories = Some c
        \<longrightarrow> createSlug (cat_name c) = createSlug slug)"
proof (intro conjI impI)
  show "mainCategory slug (Some cats) = Some c \<longleftrightarrow>
      (\<exists>pre post. cats = pre @ c # post
         \<and> createSlug (cat_name c) = toLowerCase slug
         \<and> (\<forall>d \<in> set pre. createSlug (cat_name d) \<noteq> toLowerCase slug))"
    unfolding mainCategory_def option.case
    by (rule find_Some_decomp)
  show "mainCategory slug (Some cats) = None \<longleftrightarrow>
        (\<forall>d \<in> set cats. createSlug (cat_name d) \<noteq> toLowerCase slug)"
    unfolding mainCategory_def option.case
    by (auto simp: find_None_iff)
  show "mainCategory slug None = None"
    by (simp add: mainCategory_def)
next
  assume found: "mainCategory slug categories = Some c"
  then obtain cats where "categories = Some cats"
    by (cases categories) (simp_all add: mainCategory_def)
  with found have "find (\<lambda>cat. createSlug (cat_name cat) = toLowerCase slug) cats = Some c"
    by (simp add: mainCategory_def)
  then have "createSlug (cat_name c) = toLowerCase slug"
    by (auto simp: find_Some_decomp)
  then have "createSlug (createSlug (cat_name c)) = createSlug (toLowerCase slug)"
    by (rule arg_cong)
  then show "createSlug (cat_name c) = createSlug slug"
    by (simp only: createSlug_idem createSlug_lower)
qed

text \<open>Of two categories that slugify to \<open>t-shirts\<close> the first one is returned.\<close>

theorem resolver_first_match_witness:
  "mainCategory ''T-Shirts''
     (Some [Category ''1'' ''Shoes'' None, Category ''2'' ''T  Shirts!'' None,
            Category ''3'' ''t-shirts'' None])
   = Some (Category ''2'' ''T  Shirts!'' None)"
proof -
  have "[Category ''1'' ''Shoes'' None, Category ''2'' ''T  Shirts!'' None,
         Category ''3'' ''t-shirts'' None]
        = [Category ''1'' ''Shoes'' None] @ Category ''2'' ''T  Shirts!'' None
            # [Category ''3'' ''t-shirts'' None]
      \<and> createSlug (cat_name (Category ''2'' ''T  Shirts!'' None)) = toLowerCase ''T-Shirts''
      \<and> (\<forall>d \<in> set [Category ''1'' ''Shoes'' None].
            createSlug (cat_name d) \<noteq> toLowerCase ''T-Shirts'')"
    by code_simp
  then have "\<exists>pre post.
      [Category ''1'' ''Shoes'' None, Category ''2'' ''T  Shirts!'' None,
       Category ''3'' ''t-shirts'' None] = pre @ Category ''2'' ''T  Shirts!'' None # post
      \<and> createSlug (cat_name (Category ''2'' ''T  Shirts!'' None)) = toLowerCase ''T-Shirts''
      \<and> (\<forall>d \<in> set pre. createSlug (cat_name d) \<noteq> toLowerCase ''T-Shirts'')"
    by blast
  with resolver_first_match [of "''T-Shirts''"
      "[Category ''1'' ''Shoes'' None, Category ''2'' ''T  Shirts!'' None,
        Category ''3'' ''t-shirts'' None]" "Category ''2'' ''T  Shirts!'' None"]
  show ?thesis by blast
qed

text \<open>
  The requested slug \<open>shirts-\<close> slugifies to \<open>shirts\<close>, as the category name \<open>Shirts\<close>
  does, but the resolver finds no category.
\<close>

theorem resolver_slug_counterexample:
  "createSlug (cat_name (Category ''1'' ''Shirts'' None)) = createSlug ''shirts-''
   \<and> mainCategory ''shirts-'' (Some [Category ''1'' ''Shirts'' None]) = None"
  by code_simp

end
